theory Spec2Isabelle
  imports Main "HOL-Library.Char_ord" "HOL-Library.List_Lexorder" "HOL-Library.Multiset"
begin

section \<open>Go library functions used by the repository\<close>

text \<open>
  A Go string is a sequence of bytes, here a \<^typ>\<open>string\<close> (a list of 8-bit characters).
  Go compares strings byte by byte, a proper prefix being smaller: this is the
  lexicographic order on \<^typ>\<open>char list\<close> over the order of the byte values.
\<close>

text \<open>\<^verbatim>\<open>strings.Join(elems, sep)\<close>.\<close>

fun strings_Join :: "string list \<Rightarrow> string \<Rightarrow> string" where
  "strings_Join [] sep = []"
| "strings_Join [x] sep = x"
| "strings_Join (x # y # zs) sep = x @ sep @ strings_Join (y # zs) sep"

text \<open>
  \<^verbatim>\<open>strings.Split(s, sep)\<close> for a separator of one byte (every call of the repository
  passes \<^verbatim>\<open>","\<close>): the pieces between the separators, so the empty string gives one
  empty piece.
\<close>

fun strings_Split :: "string \<Rightarrow> char \<Rightarrow> string list" where
  "strings_Split [] c = [[]]"
| "strings_Split (x # xs) c =
     (if x = c then [] # strings_Split xs c
      else (case strings_Split xs c of
              [] \<Rightarrow> [[x]]
            | w # ws \<Rightarrow> (x # w) # ws))"

text \<open>
  \<^verbatim>\<open>strings.SplitN(s, sep, 2)\<close> for a separator of one byte: the text before the first
  separator and the text after it, or the string alone when it has no separator.
\<close>

definition strings_SplitN2 :: "string \<Rightarrow> char \<Rightarrow> string list" where
  "strings_SplitN2 s c =
     (if c \<in> set s then [takeWhile (\<lambda>x. x \<noteq> c) s, tl (dropWhile (\<lambda>x. x \<noteq> c) s)]
      else [s])"

text \<open>
  \<^verbatim>\<open>sort.Strings\<close> sorts in increasing order. Equal strings are indistinguishable, so
  the result is the one sorted arrangement of the input.
\<close>

definition sort_Strings :: "string list \<Rightarrow> string list" where
  "sort_Strings xs = sort xs"

text \<open>
  \<^verbatim>\<open>strings.TrimSpace\<close> removes the leading and the trailing white space, as
  \<^verbatim>\<open>unicode.IsSpace\<close> defines it: tab, line feed, vertical tab, form feed, carriage
  return, space, U+0085, U+00A0, U+1680, U+2000 to U+200A, U+2028, U+2029, U+202F, U+205F and
  U+3000. On the bytes of the string these are the UTF-8 encodings below; a byte
  sequence that is not the encoding of one of them (malformed UTF-8 included) stops
  the trimming.
\<close>

definition unicode_spaces :: "string list" where
  "unicode_spaces =
     [[CHR 0x09], [CHR 0x0A], [CHR 0x0B], [CHR 0x0C], [CHR 0x0D], [CHR 0x20],
      [CHR 0xC2, CHR 0x85], [CHR 0xC2, CHR 0xA0],
      [CHR 0xE1, CHR 0x9A, CHR 0x80],
      [CHR 0xE2, CHR 0x80, CHR 0x80], [CHR 0xE2, CHR 0x80, CHR 0x81],
      [CHR 0xE2, CHR 0x80, CHR 0x82], [CHR 0xE2, CHR 0x80, CHR 0x83],
      [CHR 0xE2, CHR 0x80, CHR 0x84], [CHR 0xE2, CHR 0x80, CHR 0x85],
      [CHR 0xE2, CHR 0x80, CHR 0x86], [CHR 0xE2, CHR 0x80, CHR 0x87],
      [CHR 0xE2, CHR 0x80, CHR 0x88], [CHR 0xE2, CHR 0x80, CHR 0x89],
      [CHR 0xE2, CHR 0x80, CHR 0x8A],
      [CHR 0xE2, CHR 0x80, CHR 0xA8], [CHR 0xE2, CHR 0x80, CHR 0xA9],
      [CHR 0xE2, CHR 0x80, CHR 0xAF],
      [CHR 0xE2, CHR 0x81, CHR 0x9F],
      [CHR 0xE3, CHR 0x80, CHR 0x80]]"

definition space_prefix :: "string \<Rightarrow> string option" where
  "space_prefix s = find (\<lambda>e. take (length e) s = e) unicode_spaces"

definition space_suffix :: "string \<Rightarrow> string option" where
  "space_suffix s = find (\<lambda>e. drop (length s - length e) s = e) unicode_spaces"

text \<open>Trimming at the left, then at the right, until no white space is found.\<close>

function trimLeftSpace :: "string \<Rightarrow> string" where
  "trimLeftSpace s =
     (case space_prefix s of
        None \<Rightarrow> s
      | Some e \<Rightarrow> trimLeftSpace (drop (length e) s))"
  by pat_completeness auto
termination
proof (relation "measure length")
  show "wf (measure length)" by simp
next
  fix s e :: string
  assume a: "space_prefix s = Some e"
  then have "e \<in> set unicode_spaces" and p: "take (length e) s = e"
    by (auto simp: space_prefix_def find_Some_iff)
  then have "e \<noteq> []" by (auto simp: unicode_spaces_def)
  with p have "s \<noteq> []" by auto
  with \<open>e \<noteq> []\<close> show "(drop (length e) s, s) \<in> measure length" by simp
qed

declare trimLeftSpace.simps [simp del]

function trimRightSpace :: "string \<Rightarrow> string" where
  "trimRightSpace s =
     (case space_suffix s of
        None \<Rightarrow> s
      | Some e \<Rightarrow> trimRightSpace (take (length s - length e) s))"
  by pat_completeness auto
termination
proof (relation "measure length")
  show "wf (measure length)" by simp
next
  fix s e :: string
  assume a: "space_suffix s = Some e"
  then have "e \<in> set unicode_spaces" and p: "drop (length s - length e) s = e"
    by (auto simp: space_suffix_def find_Some_iff)
  then have "e \<noteq> []" by (auto simp: unicode_spaces_def)
  with p have "s \<noteq> []" by auto
  with \<open>e \<noteq> []\<close> show "(take (length s - length e) s, s) \<in> measure length" by simp
qed

declare trimRightSpace.simps [simp del]

definition strings_TrimSpace :: "string \<Rightarrow> string" where
  "strings_TrimSpace s = trimRightSpace (trimLeftSpace s)"

section \<open>Package types: query rules\<close>

definition NormalizeQueryRules :: "string list \<Rightarrow> string" where
  "NormalizeQueryRules rules =
     (if length rules = 0 then ''''
      else strings_Join (sort_Strings rules) '','')"

definition ParseQueryRules :: "string \<Rightarrow> string list" where
  "ParseQueryRules normalized =
     (if normalized = '''' then []
      else strings_Split normalized CHR '','')"

section \<open>Package worker: the tags handed to the agent\<close>

text \<open>
  The loop of \<^verbatim>\<open>normalizeTags\<close> over the tags, with its two variables \<^verbatim>\<open>result\<close> and
  \<^verbatim>\<open>lastQueue\<close>.
\<close>

fun normalizeTags_loop :: "string list \<Rightarrow> string list \<Rightarrow> string \<Rightarrow> string list \<times> string" where
  "normalizeTags_loop [] result lastQueue = (result, lastQueue)"
| "normalizeTags_loop (tag # tags) result lastQueue =
     (let parts = strings_SplitN2 tag CHR ''=''
      in if length parts \<noteq> 2 then normalizeTags_loop tags result lastQueue
         else let key = parts ! 0; val = parts ! 1
              in if key = ''queue'' then normalizeTags_loop tags result val
                 else normalizeTags_loop tags (result @ [tag]) lastQueue)"

definition normalizeTags :: "string list \<Rightarrow> string" where
  "normalizeTags tags =
     (case normalizeTags_loop tags [] '''' of
        (result, lastQueue) \<Rightarrow>
          strings_Join (if lastQueue \<noteq> '''' then result @ [''queue='' @ lastQueue] else result) '','')"

text \<open>The vocabulary of the tag-merge rule: the key and the value of a tag.\<close>

definition tag_key :: "string \<Rightarrow> string option" where
  "tag_key t = (if CHR ''='' \<in> set t then Some (takeWhile (\<lambda>x. x \<noteq> CHR ''='') t) else None)"

definition tag_value :: "string \<Rightarrow> string" where
  "tag_value t = tl (dropWhile (\<lambda>x. x \<noteq> CHR ''='') t)"

definition other_tags :: "string list \<Rightarrow> string list" where
  "other_tags tags = filter (\<lambda>t. tag_key t \<noteq> None \<and> tag_key t \<noteq> Some ''queue'') tags"

definition queue_values :: "string list \<Rightarrow> string list" where
  "queue_values tags = map tag_value (filter (\<lambda>t. tag_key t = Some ''queue'') tags)"

section \<open>Package types: the job\<close>

text \<open>A \<^verbatim>\<open>time.Time\<close> is kept as an instant on the time line.\<close>

type_synonym time = int

record Job =
  UUID :: string
  QueueKey :: string
  AgentQueryRules :: "string list"
  Priority :: int
  ScheduledAt :: time
  ReservedAt :: time

text \<open>
  The store writes a job as JSON and formats a time as RFC 3339. Both are library
  functions, taken here as parameters: \<open>json_Marshal\<close> and \<open>json_Unmarshal\<close> give
  \<open>None\<close> where the library returns an error.
\<close>

record codec =
  json_Marshal :: "Job \<Rightarrow> string option"
  json_Unmarshal :: "string \<Rightarrow> Job option"
  format_RFC3339 :: "time \<Rightarrow> string"

section \<open>The Redis server behind the store\<close>

text \<open>
  The server holds one key space. A key holds a list or a hash, and may carry a time to
  live, in seconds. A key whose list becomes empty is removed, and so is a key whose
  time to live has run out.

  \<open>outage\<close> decides, for each of the coming commands in turn, whether it is lost on the
  way to the server (\<open>True\<close>); once the list is used up every command arrives. The store
  is reachable when the list is empty.
\<close>

datatype redis_value = RList "string list" | RHash "string \<rightharpoonup> string"

record entry =
  content :: redis_value
  ttl :: "nat option"

record redis =
  keys :: "string \<rightharpoonup> entry"
  outage :: "bool list"

text \<open>
  The errors of a command: \<open>Nil\<close> is \<^verbatim>\<open>redis.Nil\<close>, the reply for a key that is not
  there; \<open>WrongType\<close> the reply of a list command on a hash or of a hash command on a
  list; \<open>Unreachable\<close> a command that did not arrive.
\<close>

datatype redis_error = Nil | WrongType | Unreachable

definition arrives :: "redis \<Rightarrow> bool \<times> redis" where
  "arrives s =
     (case outage s of
        [] \<Rightarrow> (True, s)
      | lost # rest \<Rightarrow> (\<not> lost, s\<lparr>outage := rest\<rparr>))"

text \<open>\<^verbatim>\<open>RPUSH key data\<close>: appends at the tail, creating the list; replies its length.\<close>

definition RPush :: "string \<Rightarrow> string \<Rightarrow> redis \<Rightarrow> (redis_error + nat) \<times> redis" where
  "RPush key data s =
     (case arrives s of (ok, s') \<Rightarrow>
        if \<not> ok then (Inl Unreachable, s')
        else (case keys s' key of
                None \<Rightarrow>
                  (Inr 1, s'\<lparr>keys := (keys s')(key \<mapsto> \<lparr>content = RList [data], ttl = None\<rparr>)\<rparr>)
              | Some e \<Rightarrow>
                  (case content e of
                     RList xs \<Rightarrow>
                       (Inr (length xs + 1),
                        s'\<lparr>keys := (keys s')(key \<mapsto> e\<lparr>content := RList (xs @ [data])\<rparr>)\<rparr>)
                   | RHash h \<Rightarrow> (Inl WrongType, s'))))"

text \<open>
  \<^verbatim>\<open>LPOP key\<close>: removes and replies the head of the list, in one command; \<open>Nil\<close> when
  the key is not there.
\<close>

definition LPop :: "string \<Rightarrow> redis \<Rightarrow> (redis_error + string) \<times> redis" where
  "LPop key s =
     (case arrives s of (ok, s') \<Rightarrow>
        if \<not> ok then (Inl Unreachable, s')
        else (case keys s' key of
                None \<Rightarrow> (Inl Nil, s')
              | Some e \<Rightarrow>
                  (case content e of
                     RList [] \<Rightarrow> (Inl Nil, s'\<lparr>keys := (keys s')(key := None)\<rparr>)
                   | RList (x # xs) \<Rightarrow>
                       (Inr x,
                        if xs = [] then s'\<lparr>keys := (keys s')(key := None)\<rparr>
                        else s'\<lparr>keys := (keys s')(key \<mapsto> e\<lparr>content := RList xs\<rparr>)\<rparr>)
                   | RHash h \<Rightarrow> (Inl WrongType, s'))))"

text \<open>
  \<^verbatim>\<open>HSET key field value ...\<close>: sets the fields, creating the hash (with no time to
  live); replies the number of fields that are new.
\<close>

definition hset_fields :: "(string \<times> string) list \<Rightarrow> (string \<rightharpoonup> string) \<Rightarrow> (string \<rightharpoonup> string)" where
  "hset_fields fvs h = fold (\<lambda>(f, v) m. m(f \<mapsto> v)) fvs h"

definition HSet :: "string \<Rightarrow> (string \<times> string) list \<Rightarrow> redis \<Rightarrow> (redis_error + nat) \<times> redis" where
  "HSet key fvs s =
     (case arrives s of (ok, s') \<Rightarrow>
        if \<not> ok then (Inl Unreachable, s')
        else (case keys s' key of
                None \<Rightarrow>
                  (Inr (length (remdups (map fst fvs))),
                   s'\<lparr>keys := (keys s')(key \<mapsto> \<lparr>content = RHash (hset_fields fvs Map.empty), ttl = None\<rparr>)\<rparr>)
              | Some e \<Rightarrow>
                  (case content e of
                     RHash h \<Rightarrow>
                       (Inr (length (filter (\<lambda>f. h f = None) (remdups (map fst fvs)))),
                        s'\<lparr>keys := (keys s')(key \<mapsto> e\<lparr>content := RHash (hset_fields fvs h)\<rparr>)\<rparr>)
                   | RList xs \<Rightarrow> (Inl WrongType, s'))))"

text \<open>
  \<^verbatim>\<open>EXPIRE key seconds\<close>: sets the time to live of a key that is there (a time of zero
  removes it); replies whether the key was there.
\<close>

definition Expire :: "string \<Rightarrow> nat \<Rightarrow> redis \<Rightarrow> (redis_error + bool) \<times> redis" where
  "Expire key seconds s =
     (case arrives s of (ok, s') \<Rightarrow>
        if \<not> ok then (Inl Unreachable, s')
        else (case keys s' key of
                None \<Rightarrow> (Inr False, s')
              | Some e \<Rightarrow>
                  (Inr True,
                   if seconds = 0 then s'\<lparr>keys := (keys s')(key := None)\<rparr>
                   else s'\<lparr>keys := (keys s')(key \<mapsto> e\<lparr>ttl := Some seconds\<rparr>)\<rparr>)))"

text \<open>Time passing: after \<open>d\<close> seconds the keys whose time to live has run out are gone.\<close>

definition elapse :: "nat \<Rightarrow> redis \<Rightarrow> redis" where
  "elapse d s =
     s\<lparr>keys := (\<lambda>k. case keys s k of
                      None \<Rightarrow> None
                    | Some e \<Rightarrow>
                        (case ttl e of
                           None \<Rightarrow> Some e
                         | Some t \<Rightarrow> if t \<le> d then None else Some (e\<lparr>ttl := Some (t - d)\<rparr>)))\<rparr>"

section \<open>Package storage: the job index\<close>

text \<open>The errors of the store, one for each \<^verbatim>\<open>fmt.Errorf\<close> of the package.\<close>

datatype store_error =
    MarshalingJob
  | AddingJob redis_error
  | SettingExpiry redis_error
  | SettingMetadata redis_error
  | SettingMetadataExpiry redis_error
  | PoppingJob redis_error
  | UnmarshalingJob
  | UpdatingStatus redis_error

text \<open>One hour, the time to live of a queue and of a metadata record, in seconds.\<close>

definition hour :: nat where
  "hour = 3600"

text \<open>The key of a queue and the key of a metadata record.\<close>

definition jobs_key :: "string \<Rightarrow> string" where
  "jobs_key normalizedRules = ''jobs:'' @ normalizedRules"

definition meta_key :: "string \<Rightarrow> string" where
  "meta_key uuid = ''job:'' @ uuid"

definition AddJob :: "codec \<Rightarrow> Job \<Rightarrow> redis \<Rightarrow> store_error option \<times> redis" where
  "AddJob c job s =
     (case json_Marshal c job of
        None \<Rightarrow> (Some MarshalingJob, s)
      | Some data \<Rightarrow>
          let normalizedRules = NormalizeQueryRules (AgentQueryRules job);
              key = jobs_key normalizedRules
          in case RPush key data s of
               (Inl err, s1) \<Rightarrow> (Some (AddingJob err), s1)
             | (Inr n, s1) \<Rightarrow>
                 (case Expire key hour s1 of
                    (Inl err, s2) \<Rightarrow> (Some (SettingExpiry err), s2)
                  | (Inr b, s2) \<Rightarrow>
                      let metaKey = meta_key (UUID job)
                      in case HSet metaKey
                                [(''queue_key'', QueueKey job),
                                 (''query_rules'', normalizedRules),
                                 (''reserved_at'', format_RFC3339 c (ReservedAt job)),
                                 (''status'', ''reserved'')] s2 of
                           (Inl err, s3) \<Rightarrow> (Some (SettingMetadata err), s3)
                         | (Inr m, s3) \<Rightarrow>
                             (case Expire metaKey hour s3 of
                                (Inl err, s4) \<Rightarrow> (Some (SettingMetadataExpiry err), s4)
                              | (Inr b', s4) \<Rightarrow> (None, s4))))"

text \<open>
  \<^verbatim>\<open>ClaimJob\<close> sends two commands. \<open>claim_pop\<close> is the function up to the decoding of
  the popped job, \<open>claim_mark\<close> the rest; \<open>Inr None\<close> is the result \<^verbatim>\<open>(nil, nil)\<close>.
\<close>

definition claim_pop :: "codec \<Rightarrow> string list \<Rightarrow> redis \<Rightarrow> (store_error + Job option) \<times> redis" where
  "claim_pop c queryRules s =
     (let normalizedRules = NormalizeQueryRules queryRules;
          key = jobs_key normalizedRules
      in case LPop key s of
           (Inl err, s1) \<Rightarrow>
             if err = Nil then (Inr None, s1) else (Inl (PoppingJob err), s1)
         | (Inr data, s1) \<Rightarrow>
             (case json_Unmarshal c data of
                None \<Rightarrow> (Inl UnmarshalingJob, s1)
              | Some job \<Rightarrow> (Inr (Some job), s1)))"

definition claim_mark :: "Job \<Rightarrow> redis \<Rightarrow> (store_error + Job option) \<times> redis" where
  "claim_mark job s =
     (let metaKey = meta_key (UUID job)
      in case HSet metaKey [(''status'', ''claimed'')] s of
           (Inl err, s1) \<Rightarrow> (Inl (UpdatingStatus err), s1)
         | (Inr n, s1) \<Rightarrow> (Inr (Some job), s1))"

definition ClaimJob :: "codec \<Rightarrow> string list \<Rightarrow> redis \<Rightarrow> (store_error + Job option) \<times> redis" where
  "ClaimJob c queryRules s =
     (case claim_pop c queryRules s of
        (Inr (Some job), s1) \<Rightarrow> claim_mark job s1
      | (r, s1) \<Rightarrow> (r, s1))"

definition CompleteJob :: "string \<Rightarrow> redis \<Rightarrow> store_error option \<times> redis" where
  "CompleteJob uuid s =
     (let metaKey = meta_key uuid
      in case HSet metaKey [(''status'', ''complete'')] s of
           (Inl err, s1) \<Rightarrow> (Some (UpdatingStatus err), s1)
         | (Inr n, s1) \<Rightarrow> (None, s1))"

section \<open>Package server: the handlers of the matching API\<close>

text \<open>
  A handler takes what it reads of the request (the \<^verbatim>\<open>query\<close> parameter, the \<^verbatim>\<open>uuid\<close>
  of the path; empty when missing) and gives the response and the store after it. The
  log lines are left out.
\<close>

datatype body = NoBody | Message string | JobBody Job

record response =
  code :: nat
  body :: body

definition handleGetJob :: "codec \<Rightarrow> string \<Rightarrow> redis \<Rightarrow> response \<times> redis" where
  "handleGetJob c queryParam s =
     (if queryParam = '''' then
        (\<lparr>code = 400, body = Message ''query parameter is required''\<rparr>, s)
      else
        let queryRules = map strings_TrimSpace (strings_Split queryParam CHR '','')
        in case ClaimJob c queryRules s of
             (Inl err, s1) \<Rightarrow> (\<lparr>code = 500, body = Message ''internal server error''\<rparr>, s1)
           | (Inr None, s1) \<Rightarrow> (\<lparr>code = 204, body = NoBody\<rparr>, s1)
           | (Inr (Some job), s1) \<Rightarrow> (\<lparr>code = 200, body = JobBody job\<rparr>, s1))"

definition handleCompleteJob :: "string \<Rightarrow> redis \<Rightarrow> response \<times> redis" where
  "handleCompleteJob uuid s =
     (if uuid = '''' then
        (\<lparr>code = 400, body = Message ''job uuid is required''\<rparr>, s)
      else
        case CompleteJob uuid s of
          (Some err, s1) \<Rightarrow> (\<lparr>code = 500, body = Message ''internal server error''\<rparr>, s1)
        | (None, s1) \<Rightarrow> (\<lparr>code = 200, body = NoBody\<rparr>, s1))"

section \<open>Reading the store\<close>

text \<open>
  The keys the store writes: lists under \<^verbatim>\<open>jobs:\<close>, hashes under \<^verbatim>\<open>job:\<close>. A store is
  well formed when every key holds the kind of value of its prefix.
\<close>

definition wf_store :: "redis \<Rightarrow> bool" where
  "wf_store s \<longleftrightarrow>
     (\<forall>k e. keys s k = Some e \<longrightarrow>
        (case content e of
           RList xs \<Rightarrow> take 5 k = ''jobs:''
         | RHash h \<Rightarrow> take 4 k = ''job:''))"

text \<open>The queue of a capability key, and the metadata record and the status of a job.\<close>

definition queue_of :: "redis \<Rightarrow> string \<Rightarrow> string list" where
  "queue_of s k =
     (case keys s (jobs_key k) of
        None \<Rightarrow> []
      | Some e \<Rightarrow> (case content e of RList xs \<Rightarrow> xs | RHash h \<Rightarrow> []))"

definition metadata :: "redis \<Rightarrow> string \<Rightarrow> (string \<rightharpoonup> string) option" where
  "metadata s uuid =
     (case keys s (meta_key uuid) of
        None \<Rightarrow> None
      | Some e \<Rightarrow> (case content e of RHash h \<Rightarrow> Some h | RList xs \<Rightarrow> None))"

definition status_of :: "redis \<Rightarrow> string \<Rightarrow> string option" where
  "status_of s uuid = (case metadata s uuid of None \<Rightarrow> None | Some h \<Rightarrow> h ''status'')"

section \<open>Concurrent callers of ClaimJob\<close>

text \<open>
  The server runs one command at a time, so concurrent calls of \<^verbatim>\<open>ClaimJob\<close> are an
  interleaving of their commands. A caller is about to send its \<^verbatim>\<open>LPOP\<close> (\<open>Calling\<close>),
  has decoded the popped job and is about to send its \<^verbatim>\<open>HSET\<close> (\<open>Marking\<close>), or has
  returned. A schedule names the caller that sends the next command.
\<close>

datatype claimer = Calling "string list" | Marking Job | Returned "store_error + Job option"

definition claimer_step :: "codec \<Rightarrow> claimer \<Rightarrow> redis \<Rightarrow> claimer \<times> redis" where
  "claimer_step c p s =
     (case p of
        Calling queryRules \<Rightarrow>
          (case claim_pop c queryRules s of
             (Inr (Some job), s1) \<Rightarrow> (Marking job, s1)
           | (r, s1) \<Rightarrow> (Returned r, s1))
      | Marking job \<Rightarrow> (case claim_mark job s of (r, s1) \<Rightarrow> (Returned r, s1))
      | Returned r \<Rightarrow> (Returned r, s))"

fun interleave :: "codec \<Rightarrow> nat list \<Rightarrow> claimer list \<Rightarrow> redis \<Rightarrow> claimer list \<times> redis" where
  "interleave c [] ps s = (ps, s)"
| "interleave c (i # schedule) ps s =
     (if i < length ps then
        (case claimer_step c (ps ! i) s of
           (p, s1) \<Rightarrow> interleave c schedule (ps[i := p]) s1)
      else interleave c schedule ps s)"

text \<open>
  The state of the callers while one job \<open>job\<close>, stored as \<open>data\<close>, is claimed on the
  key \<open>k\<close>: either the job is still the whole queue and every caller is about to pop,
  or the queue is empty, one caller holds the job and each of the others is about to
  pop or has returned without a job. \<open>progress\<close> counts the commands a caller has behind
  it, at most two.
\<close>

definition holds_job :: "Job \<Rightarrow> claimer \<Rightarrow> bool" where
  "holds_job job p \<longleftrightarrow> p = Marking job \<or> p = Returned (Inr (Some job))"

definition without_job :: "string \<Rightarrow> claimer \<Rightarrow> bool" where
  "without_job k p \<longleftrightarrow>
     (case p of
        Calling queryRules \<Rightarrow> NormalizeQueryRules queryRules = k
      | Marking job \<Rightarrow> False
      | Returned r \<Rightarrow> r = Inr None)"

definition about_to_pop :: "string \<Rightarrow> claimer \<Rightarrow> bool" where
  "about_to_pop k p \<longleftrightarrow>
     (case p of
        Calling queryRules \<Rightarrow> NormalizeQueryRules queryRules = k
      | Marking job \<Rightarrow> False
      | Returned r \<Rightarrow> False)"

definition one_job_inv :: "string \<Rightarrow> string \<Rightarrow> Job \<Rightarrow> claimer list \<Rightarrow> redis \<Rightarrow> bool" where
  "one_job_inv k data job ps s \<longleftrightarrow>
     outage s = [] \<and> wf_store s \<and>
     ((queue_of s k = [data] \<and> (\<forall>i < length ps. about_to_pop k (ps ! i))) \<or>
      (queue_of s k = [] \<and>
       (\<exists>i < length ps. holds_job job (ps ! i) \<and>
          (\<forall>j < length ps. j \<noteq> i \<longrightarrow> without_job k (ps ! j)))))"

definition progress :: "claimer \<Rightarrow> nat" where
  "progress p = (case p of Calling queryRules \<Rightarrow> 0 | Marking job \<Rightarrow> 1 | Returned r \<Rightarrow> 2)"

section \<open>Sequences of store operations\<close>

text \<open>An operation of the store, or time passing, and the store after it.\<close>

datatype operation = Add Job | Claim "string list" | Complete string | Wait nat

definition exec :: "codec \<Rightarrow> operation \<Rightarrow> redis \<Rightarrow> redis" where
  "exec c op s =
     (case op of
        Add job \<Rightarrow> snd (AddJob c job s)
      | Claim queryRules \<Rightarrow> snd (ClaimJob c queryRules s)
      | Complete uuid \<Rightarrow> snd (CompleteJob uuid s)
      | Wait d \<Rightarrow> elapse d s)"

text \<open>
  The statuses of a job seen along a run: before the first operation and after each
  one, leaving out the moments at which the job has no status.
\<close>

definition seen :: "redis \<Rightarrow> string \<Rightarrow> string list" where
  "seen s uuid = (case status_of s uuid of None \<Rightarrow> [] | Some x \<Rightarrow> [x])"

fun observed :: "codec \<Rightarrow> operation list \<Rightarrow> redis \<Rightarrow> string \<Rightarrow> string list" where
  "observed c [] s uuid = seen s uuid"
| "observed c (op # ops) s uuid = seen s uuid @ observed c ops (exec c op s) uuid"

definition status_rank :: "string \<Rightarrow> nat" where
  "status_rank x =
     (if x = ''reserved'' then 0 else if x = ''claimed'' then 1
      else if x = ''complete'' then 2 else 3)"

definition never_regresses :: "string list \<Rightarrow> bool" where
  "never_regresses xs \<longleftrightarrow> sorted_wrt (\<lambda>a b. status_rank a \<le> status_rank b) xs"

text \<open>
  The life cycle of a job: it is inserted once, and its completion is reported only
  after a claim has returned it. \<open>lifecycle\<close> checks a run against it, keeping the ids
  inserted and the ids returned by a claim so far. A job that is inserted is one that the
  codec reads back as it was written.
\<close>

definition round_trip :: "codec \<Rightarrow> Job \<Rightarrow> bool" where
  "round_trip c job =
     (case json_Marshal c job of
        None \<Rightarrow> True
      | Some data \<Rightarrow> json_Unmarshal c data = Some job)"

definition returned_id :: "(store_error + Job option) \<Rightarrow> string set" where
  "returned_id r = (case r of Inr (Some job) \<Rightarrow> {UUID job} | _ \<Rightarrow> {})"

definition allowed :: "codec \<Rightarrow> operation \<Rightarrow> string set \<Rightarrow> string set \<Rightarrow> bool" where
  "allowed c op inserted claimed =
     (case op of
        Add job \<Rightarrow> UUID job \<notin> inserted \<and> round_trip c job
      | Claim queryRules \<Rightarrow> True
      | Complete uuid \<Rightarrow> uuid \<in> claimed
      | Wait d \<Rightarrow> True)"

definition inserted_after :: "operation \<Rightarrow> string set \<Rightarrow> string set" where
  "inserted_after op inserted =
     (case op of
        Add job \<Rightarrow> insert (UUID job) inserted
      | Claim queryRules \<Rightarrow> inserted
      | Complete uuid \<Rightarrow> inserted
      | Wait d \<Rightarrow> inserted)"

definition claimed_after :: "codec \<Rightarrow> operation \<Rightarrow> redis \<Rightarrow> string set \<Rightarrow> string set" where
  "claimed_after c op s claimed =
     (case op of
        Add job \<Rightarrow> claimed
      | Claim queryRules \<Rightarrow> returned_id (fst (ClaimJob c queryRules s)) \<union> claimed
      | Complete uuid \<Rightarrow> claimed
      | Wait d \<Rightarrow> claimed)"

fun lifecycle :: "codec \<Rightarrow> operation list \<Rightarrow> redis \<Rightarrow> string set \<Rightarrow> string set \<Rightarrow> bool" where
  "lifecycle c [] s inserted claimed = True"
| "lifecycle c (op # ops) s inserted claimed =
     (allowed c op inserted claimed \<and>
      lifecycle c ops (exec c op s) (inserted_after op inserted) (claimed_after c op s claimed))"

text \<open>
  What holds of a store along such a run. The jobs in the queues are read back by the
  codec, have been inserted, have not been returned by a claim, and no two of them
  have the same id; a job whose status is \<open>reserved\<close> has not been returned by a
  claim, a job whose status is \<open>claimed\<close> or \<open>complete\<close> has, and there is no other
  status.
\<close>

definition uuid_of :: "codec \<Rightarrow> string \<Rightarrow> string option" where
  "uuid_of c data = (case json_Unmarshal c data of None \<Rightarrow> None | Some job \<Rightarrow> Some (UUID job))"

definition queued_ids :: "codec \<Rightarrow> redis \<Rightarrow> string \<Rightarrow> string option list" where
  "queued_ids c s key =
     (case keys s key of
        None \<Rightarrow> []
      | Some e \<Rightarrow> (case content e of RList xs \<Rightarrow> map (uuid_of c) xs | RHash h \<Rightarrow> []))"

definition lifecycle_inv :: "codec \<Rightarrow> redis \<Rightarrow> string set \<Rightarrow> string set \<Rightarrow> bool" where
  "lifecycle_inv c s inserted claimed \<longleftrightarrow>
     wf_store s \<and> claimed \<subseteq> inserted \<and>
     (\<forall>key. distinct (queued_ids c s key)) \<and>
     (\<forall>key x. x \<in> set (queued_ids c s key) \<longrightarrow>
        (\<exists>u. x = Some u \<and> u \<in> inserted \<and> u \<notin> claimed)) \<and>
     (\<forall>key key'. key \<noteq> key' \<longrightarrow> set (queued_ids c s key) \<inter> set (queued_ids c s key') = {}) \<and>
     (\<forall>u x. status_of s u = Some x \<longrightarrow>
        (if u \<in> claimed then x = ''claimed'' \<or> x = ''complete'' else x = ''reserved''))"

section \<open>Examples\<close>

text \<open>
  A store with no key, and a small codec for the examples: a job is written as its
  uuid, a semicolon and its rules joined by commas.
\<close>

definition empty_store :: redis where
  "empty_store = \<lparr>keys = Map.empty, outage = []\<rparr>"

definition example_job :: "string \<Rightarrow> string list \<Rightarrow> Job" where
  "example_job u rules =
     \<lparr>UUID = u, QueueKey = ''default'', AgentQueryRules = rules, Priority = 0,
      ScheduledAt = 0, ReservedAt = 0\<rparr>"

definition example_codec :: codec where
  "example_codec =
     \<lparr>json_Marshal = (\<lambda>j. Some (UUID j @ '';'' @ strings_Join (AgentQueryRules j) '','')),
      json_Unmarshal = (\<lambda>d. if CHR '';'' \<in> set d
                             then Some (example_job (takeWhile (\<lambda>x. x \<noteq> CHR '';'') d)
                                          (ParseQueryRules (tl (dropWhile (\<lambda>x. x \<noteq> CHR '';'') d))))
                             else None),
      format_RFC3339 = (\<lambda>t. ''1970-01-01T00:00:00Z'')\<rparr>"

definition example_run :: "operation list" where
  "example_run =
     [Add (example_job ''j1'' [''queue=default'']), Wait 10, Claim [''queue=default''],
      Complete ''j1'', Wait 4000, Complete ''j1'']"

section \<open>Properties of the query rules\<close>

lemma Split_no_sep: "c \<notin> set x \<Longrightarrow> strings_Split x c = [x]"
  by (induction x) auto

lemma Split_append_sep:
  "c \<notin> set x \<Longrightarrow> strings_Split (x @ c # rest) c = x # strings_Split rest c"
  by (induction x) auto

lemma Split_Join:
  "xs \<noteq> [] \<Longrightarrow> \<forall>x \<in> set xs. c \<notin> set x \<Longrightarrow> strings_Split (strings_Join xs [c]) c = xs"
proof (induction xs "[c]" rule: strings_Join.induct)
  case 1
  then show ?case by simp
next
  case (2 x)
  then show ?case by (simp add: Split_no_sep)
next
  case (3 x y zs)
  then show ?case by (simp add: Split_append_sep)
qed

lemma Join_empty_iff: "strings_Join xs [c] = [] \<longleftrightarrow> xs = [] \<or> xs = [[]]"
  by (induction xs "[c]" rule: strings_Join.induct) auto

lemma sort_single_empty:
  assumes "sort_Strings x = [[]]"
  shows "x = [[]]"
proof -
  from assms have l: "length x = 1" and st: "set x = {[]}"
    unfolding sort_Strings_def
    by (metis length_sort length_Cons list.size(3) One_nat_def,
        metis set_sort list.simps(15) empty_set)
  from l obtain a where "x = [a]" by (cases x) auto
  with st show ?thesis by simp
qed

text \<open>
  C3, as the code has it. Reading back a normalized key gives the rules it was made
  from, as a multiset, when no rule contains the separator and the list is not the
  single empty rule; the empty list normalizes to the empty string.
\<close>

theorem parse_normalize_round_trip:
  assumes "\<forall>r \<in> set x. CHR '','' \<notin> set r" and "x \<noteq> ['''']"
  shows "mset (ParseQueryRules (NormalizeQueryRules x)) = mset x \<and>
         NormalizeQueryRules [] = ''''"
proof (cases "x = []")
  case True
  then show ?thesis by (simp add: NormalizeQueryRules_def ParseQueryRules_def)
next
  case False
  let ?s = "sort_Strings x"
  have ne: "?s \<noteq> []"
    using False unfolding sort_Strings_def by (metis length_sort length_0_conv)
  have nc: "\<forall>r \<in> set ?s. CHR '','' \<notin> set r"
    using assms(1) by (simp add: sort_Strings_def)
  have "?s \<noteq> [[]]"
    using assms(2) sort_single_empty by blast
  with ne have "strings_Join ?s '','' \<noteq> []"
    using Join_empty_iff[of ?s "CHR '',''"] by simp
  moreover have "strings_Split (strings_Join ?s '','') CHR '','' = ?s"
    using Split_Join[OF ne nc] by simp
  ultimately show ?thesis
    using False by (simp add: NormalizeQueryRules_def ParseQueryRules_def sort_Strings_def)
qed

theorem parse_normalize_round_trip_witness:
  "CHR '','' \<notin> set ''queue=default'' \<and> CHR '','' \<notin> set ''arch=amd64'' \<and>
   [''queue=default'', ''arch=amd64''] \<noteq> [''''] \<and>
   mset (ParseQueryRules (NormalizeQueryRules [''queue=default'', ''arch=amd64'']))
     = mset [''queue=default'', ''arch=amd64'']"
  using parse_normalize_round_trip [of "[''queue=default'', ''arch=amd64'']"] by simp

text \<open>
  C3 as stated fails on a rule that contains a comma, which comes back as two rules,
  and on the single empty rule, which comes back as no rule.
\<close>

theorem parse_normalize_counterexample:
  "mset (ParseQueryRules (NormalizeQueryRules [''a=1,b=2''])) \<noteq> mset [''a=1,b=2''] \<and>
   mset (ParseQueryRules (NormalizeQueryRules [''''])) \<noteq> mset ['''']"
  by (simp add: NormalizeQueryRules_def ParseQueryRules_def sort_Strings_def)

text \<open>
  C4. Two lists of rules with the same elements, each as often, normalize to the same
  key; so do two lists without repetition that hold the same set of rules.
\<close>

theorem normalize_order_independent:
  "(mset xs = mset ys \<longrightarrow> NormalizeQueryRules xs = NormalizeQueryRules ys) \<and>
   (distinct xs \<and> distinct ys \<and> set xs = set ys \<longrightarrow>
      NormalizeQueryRules xs = NormalizeQueryRules ys)"
proof -
  have perm: "NormalizeQueryRules xs = NormalizeQueryRules ys" if a: "mset xs = mset ys"
  proof -
    from a have "sort xs = sort ys" by (simp add: properties_for_sort)
    moreover have "length xs = length ys" using a by (rule mset_eq_length)
    ultimately show ?thesis by (simp add: NormalizeQueryRules_def sort_Strings_def)
  qed
  moreover have "mset xs = mset ys" if "distinct xs \<and> distinct ys \<and> set xs = set ys"
    using that set_eq_iff_mset_eq_distinct[of xs ys] by blast
  ultimately show ?thesis by blast
qed

theorem normalize_order_independent_witness:
  "mset [''queue=default'', ''arch=amd64''] = mset [''arch=amd64'', ''queue=default''] \<and>
   distinct [''queue=default'', ''arch=amd64''] \<and>
   distinct [''arch=amd64'', ''queue=default''] \<and>
   set [''queue=default'', ''arch=amd64''] = set [''arch=amd64'', ''queue=default''] \<and>
   NormalizeQueryRules [''queue=default'', ''arch=amd64'']
     = NormalizeQueryRules [''arch=amd64'', ''queue=default'']"
  using normalize_order_independent
          [of "[''queue=default'', ''arch=amd64'']" "[''arch=amd64'', ''queue=default'']"]
  by auto

text \<open>A rule given twice is kept twice: the key is that of the list, not of its set.\<close>

lemma normalize_keeps_repetition:
  "NormalizeQueryRules [''arch=amd64'', ''arch=amd64''] \<noteq> NormalizeQueryRules [''arch=amd64'']"
  by (simp add: NormalizeQueryRules_def sort_Strings_def)

section \<open>Properties of the tags\<close>

lemma normalizeTags_loop_eq:
  "normalizeTags_loop tags result lastQueue =
     (result @ other_tags tags,
      if queue_values tags = [] then lastQueue else last (queue_values tags))"
proof (induction tags arbitrary: result lastQueue)
  case Nil
  then show ?case by (simp add: other_tags_def queue_values_def)
next
  case (Cons tag tags)
  then show ?case
    by (simp add: other_tags_def queue_values_def strings_SplitN2_def tag_key_def
                  tag_value_def Let_def)
qed

text \<open>
  C7, as the code has it. The result is the tags that have a key other than \<open>queue\<close>,
  unchanged and in their order, followed by \<open>queue=\<close> and the value of the last tag of
  key \<open>queue\<close> when there is one and its value is not empty, joined by commas. A tag
  without \<open>=\<close> is dropped, and so is the \<open>queue\<close> tag when the last one has an empty value.
\<close>

theorem normalizeTags_merge:
  "normalizeTags tags =
     strings_Join
       (other_tags tags @
        (if queue_values tags \<noteq> [] \<and> last (queue_values tags) \<noteq> ''''
         then [''queue='' @ last (queue_values tags)] else []))
       '',''"
  by (simp add: normalizeTags_def normalizeTags_loop_eq)

theorem normalizeTags_merge_witness:
  "normalizeTags [''queue=default'', ''arch=amd64'', ''arch=amd64'', ''queue=production'']
     = ''arch=amd64,arch=amd64,queue=production''"
  using normalizeTags_merge
          [of "[''queue=default'', ''arch=amd64'', ''arch=amd64'', ''queue=production'']"]
  by (simp add: other_tags_def queue_values_def tag_key_def tag_value_def)

text \<open>
  C7 as stated fails where the last tag of key \<open>queue\<close> has an empty value: no \<open>queue\<close>
  tag is emitted at all.
\<close>

theorem normalizeTags_counterexample:
  "tag_key ''queue=default'' = Some ''queue'' \<and> tag_key ''queue='' = Some ''queue'' \<and>
   normalizeTags [''queue=default'', ''arch=amd64'', ''queue=''] = ''arch=amd64''"
  by (simp add: normalizeTags_def tag_key_def strings_SplitN2_def)

section \<open>Properties of the commands\<close>

lemma arrives_reachable: "outage s = [] \<Longrightarrow> arrives s = (True, s)"
  by (simp add: arrives_def)

lemma outage_arrives: "outage s = [] \<Longrightarrow> outage (snd (arrives s)) = []"
  by (simp add: arrives_def)

lemma jobs_key_prefix: "take 5 (jobs_key k) = ''jobs:''" "take 4 (jobs_key k) \<noteq> ''job:''"
  by (simp_all add: jobs_key_def take_Cons')

lemma meta_key_prefix: "take 4 (meta_key u) = ''job:''" "take 5 (meta_key u) \<noteq> ''jobs:''"
  by (simp_all add: meta_key_def take_Cons')

lemma meta_key_neq_jobs_key [simp]: "meta_key u \<noteq> jobs_key k" "jobs_key k \<noteq> meta_key u"
  by (simp_all add: meta_key_def jobs_key_def)

lemma meta_key_inj [simp]: "meta_key u = meta_key v \<longleftrightarrow> u = v"
  by (simp add: meta_key_def)

lemma jobs_key_inj [simp]: "jobs_key k = jobs_key l \<longleftrightarrow> k = l"
  by (simp add: jobs_key_def)

lemma entry_overwrite: "(e::entry)\<lparr>content := a, ttl := b\<rparr> = \<lparr>content = a, ttl = b\<rparr>"
  by (cases e) simp

lemma wf_meta_key:
  assumes "wf_store s" and "keys s (meta_key u) = Some e"
  shows "\<exists>h. content e = RHash h"
proof (cases "content e")
  case (RList xs)
  from assms have "case content e of RList xs \<Rightarrow> take 5 (meta_key u) = ''jobs:''
                   | RHash h \<Rightarrow> take 4 (meta_key u) = ''job:''"
    unfolding wf_store_def by blast
  with RList show ?thesis by (simp add: meta_key_prefix)
next
  case (RHash h)
  then show ?thesis by simp
qed

lemma wf_jobs_key:
  assumes "wf_store s" and "keys s (jobs_key k) = Some e"
  shows "\<exists>xs. content e = RList xs"
proof (cases "content e")
  case (RHash h)
  from assms have "case content e of RList xs \<Rightarrow> take 5 (jobs_key k) = ''jobs:''
                   | RHash h \<Rightarrow> take 4 (jobs_key k) = ''job:''"
    unfolding wf_store_def by blast
  with RHash show ?thesis by (simp add: jobs_key_prefix)
next
  case (RList xs)
  then show ?thesis by simp
qed

lemma wf_store_RPush: "wf_store s \<Longrightarrow> wf_store (snd (RPush (jobs_key k) d s))"
  by (auto simp: wf_store_def RPush_def arrives_def jobs_key_prefix
           split: list.splits option.splits redis_value.splits if_splits)

lemma wf_store_Expire: "wf_store s \<Longrightarrow> wf_store (snd (Expire key n s))"
  by (auto simp: wf_store_def Expire_def arrives_def
           split: list.splits option.splits if_splits)

lemma wf_store_HSet: "wf_store s \<Longrightarrow> wf_store (snd (HSet (meta_key u) fvs s))"
  by (auto simp: wf_store_def HSet_def arrives_def meta_key_prefix
           split: list.splits option.splits redis_value.splits if_splits)

lemma wf_store_LPop: "wf_store s \<Longrightarrow> wf_store (snd (LPop key s))"
  by (auto simp: wf_store_def LPop_def arrives_def
           split: list.splits option.splits redis_value.splits if_splits)

lemma wf_store_elapse: "wf_store s \<Longrightarrow> wf_store (elapse d s)"
  by (auto simp: wf_store_def elapse_def split: option.splits if_splits)

lemmas wf_store_commands = wf_store_RPush wf_store_Expire wf_store_HSet wf_store_LPop

lemma wf_store_AddJob: "wf_store s \<Longrightarrow> wf_store (snd (AddJob c job s))"
  by (simp add: AddJob_def Let_def split_beta wf_store_commands
           split: option.splits sum.splits)

lemma wf_store_claim_pop: "wf_store s \<Longrightarrow> wf_store (snd (claim_pop c rules s))"
  by (simp add: claim_pop_def Let_def split_beta wf_store_commands
           split: option.splits sum.splits)

lemma wf_store_claim_mark: "wf_store s \<Longrightarrow> wf_store (snd (claim_mark job s))"
  by (simp add: claim_mark_def Let_def split_beta wf_store_commands
           split: option.splits sum.splits)

lemma wf_store_ClaimJob: "wf_store s \<Longrightarrow> wf_store (snd (ClaimJob c rules s))"
  by (simp add: ClaimJob_def split_beta wf_store_claim_pop wf_store_claim_mark
           split: option.splits sum.splits)

lemma wf_store_CompleteJob: "wf_store s \<Longrightarrow> wf_store (snd (CompleteJob u s))"
  by (simp add: CompleteJob_def Let_def split_beta wf_store_commands
           split: option.splits sum.splits)

section \<open>The store when it is reachable\<close>

lemma queue_of_cases:
  assumes "wf_store s"
  obtains "keys s (jobs_key k) = None" and "queue_of s k = []"
  | e xs where "keys s (jobs_key k) = Some e" and "content e = RList xs" and "queue_of s k = xs"
proof (cases "keys s (jobs_key k)")
  case None
  then show ?thesis using that(1) by (simp add: queue_of_def)
next
  case (Some e)
  with assms obtain xs where "content e = RList xs" using wf_jobs_key by blast
  with Some show ?thesis using that(2) by (simp add: queue_of_def)
qed

lemma metadata_cases:
  assumes "wf_store s"
  obtains "keys s (meta_key u) = None" and "metadata s u = None"
  | e h where "keys s (meta_key u) = Some e" and "content e = RHash h" and "metadata s u = Some h"
proof (cases "keys s (meta_key u)")
  case None
  then show ?thesis using that(1) by (simp add: metadata_def)
next
  case (Some e)
  with assms obtain h where "content e = RHash h" using wf_meta_key by blast
  with Some show ?thesis using that(2) by (simp add: metadata_def)
qed

lemma AddJob_reachable:
  assumes "outage s = []" and "wf_store s" and "json_Marshal c job = Some data"
  shows "fst (AddJob c job s) = None"
    and "outage (snd (AddJob c job s)) = []"
    and "queue_of (snd (AddJob c job s)) k =
           (if k = NormalizeQueryRules (AgentQueryRules job) then queue_of s k @ [data]
            else queue_of s k)"
proof -
  let ?k = "NormalizeQueryRules (AgentQueryRules job)"
  have "fst (AddJob c job s) = None \<and> outage (snd (AddJob c job s)) = [] \<and>
        queue_of (snd (AddJob c job s)) k = (if k = ?k then queue_of s k @ [data] else queue_of s k)"
  proof (cases rule: queue_of_cases[OF assms(2), of ?k])
    case 1
    show ?thesis
    proof (cases rule: metadata_cases[OF assms(2), of "UUID job"])
      case 1
      with \<open>keys s (jobs_key ?k) = None\<close> \<open>queue_of s ?k = []\<close> assms(1,3) show ?thesis
        by (simp add: AddJob_def RPush_def Expire_def HSet_def arrives_reachable Let_def
                      hour_def queue_of_def)
    next
      case (2 e h)
      with \<open>keys s (jobs_key ?k) = None\<close> \<open>queue_of s ?k = []\<close> assms(1,3) show ?thesis
        by (simp add: AddJob_def RPush_def Expire_def HSet_def arrives_reachable Let_def
                      hour_def queue_of_def)
    qed
  next
    case (2 e xs)
    note q = this
    show ?thesis
    proof (cases rule: metadata_cases[OF assms(2), of "UUID job"])
      case 1
      with q assms(1,3) show ?thesis
        by (simp add: AddJob_def RPush_def Expire_def HSet_def arrives_reachable Let_def
                      hour_def queue_of_def)
    next
      case (2 e' h)
      with q assms(1,3) show ?thesis
        by (simp add: AddJob_def RPush_def Expire_def HSet_def arrives_reachable Let_def
                      hour_def queue_of_def)
    qed
  qed
  then show "fst (AddJob c job s) = None"
    and "outage (snd (AddJob c job s)) = []"
    and "queue_of (snd (AddJob c job s)) k =
           (if k = ?k then queue_of s k @ [data] else queue_of s k)"
    by simp_all
qed

lemma ClaimJob_reachable:
  assumes "outage s = []" and "wf_store s"
    and "queue_of s (NormalizeQueryRules rules) = data # rest"
    and "json_Unmarshal c data = Some job"
  shows "fst (ClaimJob c rules s) = Inr (Some job)"
    and "outage (snd (ClaimJob c rules s)) = []"
    and "queue_of (snd (ClaimJob c rules s)) k =
           (if k = NormalizeQueryRules rules then rest else queue_of s k)"
proof -
  let ?k = "NormalizeQueryRules rules"
  from assms(3) obtain e where e: "keys s (jobs_key ?k) = Some e" "content e = RList (data # rest)"
    by (cases rule: queue_of_cases[OF assms(2), of ?k]) auto
  define s1 where "s1 = snd (claim_pop c rules s)"
  have pop: "claim_pop c rules s = (Inr (Some job), s1)" "outage s1 = []"
    "queue_of s1 k = (if k = ?k then rest else queue_of s k)"
    unfolding s1_def using e assms(1,4)
    by (simp_all add: claim_pop_def LPop_def arrives_reachable Let_def queue_of_def)
  have wf1: "wf_store s1" unfolding s1_def using assms(2) by (rule wf_store_claim_pop)
  have "fst (claim_mark job s1) = Inr (Some job) \<and> outage (snd (claim_mark job s1)) = [] \<and>
        queue_of (snd (claim_mark job s1)) k = queue_of s1 k"
  proof (cases rule: metadata_cases[OF wf1, of "UUID job"])
    case 1
    with pop(2) show ?thesis
      by (simp add: claim_mark_def HSet_def arrives_reachable Let_def queue_of_def)
  next
    case (2 e' h)
    with pop(2) show ?thesis
      by (simp add: claim_mark_def HSet_def arrives_reachable Let_def queue_of_def)
  qed
  with pop show "fst (ClaimJob c rules s) = Inr (Some job)"
    and "outage (snd (ClaimJob c rules s)) = []"
    and "queue_of (snd (ClaimJob c rules s)) k = (if k = ?k then rest else queue_of s k)"
    by (simp_all add: ClaimJob_def)
qed

lemma ClaimJob_empty:
  assumes "outage s = []" and "wf_store s" and "queue_of s (NormalizeQueryRules rules) = []"
  shows "fst (ClaimJob c rules s) = Inr None"
proof (cases rule: queue_of_cases[OF assms(2), of "NormalizeQueryRules rules"])
  case 1
  then show ?thesis using assms(1)
    by (simp add: ClaimJob_def claim_pop_def LPop_def arrives_reachable)
next
  case (2 e xs)
  then show ?thesis using assms(1,3)
    by (simp add: ClaimJob_def claim_pop_def LPop_def arrives_reachable)
qed

lemmas store_defs =
  AddJob_def ClaimJob_def claim_pop_def claim_mark_def CompleteJob_def
  RPush_def LPop_def HSet_def Expire_def arrives_def hset_fields_def hour_def Let_def

lemmas example_defs =
  empty_store_def example_codec_def example_job_def NormalizeQueryRules_def sort_Strings_def
  ParseQueryRules_def jobs_key_def meta_key_def

section \<open>Claims about the job index\<close>

text \<open>
  C2. On a reachable, well-formed store whose queue for a key is empty, after
  \<open>AddJob A\<close> and \<open>AddJob B\<close> under that key two claims on the key return \<open>A\<close>, then \<open>B\<close>,
  and a third claim returns no job.
\<close>

theorem claims_in_insertion_order:
  assumes "outage s = []" and "wf_store s" and "queue_of s k = []"
    and "NormalizeQueryRules (AgentQueryRules A) = k"
    and "NormalizeQueryRules (AgentQueryRules B) = k"
    and "json_Marshal c A = Some a" and "json_Unmarshal c a = Some A"
    and "json_Marshal c B = Some b" and "json_Unmarshal c b = Some B"
    and "NormalizeQueryRules q1 = k" and "NormalizeQueryRules q2 = k"
    and "NormalizeQueryRules q3 = k"
  shows "let s1 = snd (AddJob c A s); s2 = snd (AddJob c B s1);
             s3 = snd (ClaimJob c q1 s2); s4 = snd (ClaimJob c q2 s3)
         in fst (AddJob c A s) = None \<and> fst (AddJob c B s1) = None \<and>
            fst (ClaimJob c q1 s2) = Inr (Some A) \<and>
            fst (ClaimJob c q2 s3) = Inr (Some B) \<and>
            fst (ClaimJob c q3 s4) = Inr None"
proof -
  define s1 where "s1 = snd (AddJob c A s)"
  define s2 where "s2 = snd (AddJob c B s1)"
  define s3 where "s3 = snd (ClaimJob c q1 s2)"
  define s4 where "s4 = snd (ClaimJob c q2 s3)"
  have a1: "fst (AddJob c A s) = None" "outage s1 = []" "queue_of s1 k = [a]" "wf_store s1"
    unfolding s1_def
    using AddJob_reachable(1,2)[OF assms(1,2,6)] AddJob_reachable(3)[OF assms(1,2,6), of k]
      assms(3,4) wf_store_AddJob[OF assms(2)]
    by simp_all
  have a2: "fst (AddJob c B s1) = None" "outage s2 = []" "queue_of s2 k = [a, b]" "wf_store s2"
    unfolding s2_def
    using AddJob_reachable(1,2)[OF a1(2) a1(4) assms(8)]
      AddJob_reachable(3)[OF a1(2) a1(4) assms(8), of k] a1(3) assms(5) wf_store_AddJob[OF a1(4)]
    by simp_all
  have q1: "queue_of s2 (NormalizeQueryRules q1) = a # [b]"
    using a2(3) assms(10) by simp
  have c1: "fst (ClaimJob c q1 s2) = Inr (Some A)" "outage s3 = []" "queue_of s3 k = [b]"
    "wf_store s3"
    unfolding s3_def
    using ClaimJob_reachable(1,2)[OF a2(2) a2(4) q1 assms(7)]
      ClaimJob_reachable(3)[OF a2(2) a2(4) q1 assms(7), of k] assms(10)
      wf_store_ClaimJob[OF a2(4)]
    by simp_all
  have q2: "queue_of s3 (NormalizeQueryRules q2) = b # []"
    using c1(3) assms(11) by simp
  have c2: "fst (ClaimJob c q2 s3) = Inr (Some B)" "outage s4 = []" "queue_of s4 k = []"
    "wf_store s4"
    unfolding s4_def
    using ClaimJob_reachable(1,2)[OF c1(2) c1(4) q2 assms(9)]
      ClaimJob_reachable(3)[OF c1(2) c1(4) q2 assms(9), of k] assms(11)
      wf_store_ClaimJob[OF c1(4)]
    by simp_all
  have q3: "queue_of s4 (NormalizeQueryRules q3) = []"
    using c2(3) assms(12) by simp
  have c3: "fst (ClaimJob c q3 s4) = Inr None"
    using ClaimJob_empty[OF c2(2) c2(4) q3] .
  from a1(1) a2(1) c1(1) c2(1) c3 show ?thesis
    unfolding Let_def s1_def s2_def s3_def s4_def by simp
qed

theorem claims_in_insertion_order_witness:
  "outage empty_store = [] \<and> wf_store empty_store \<and>
   queue_of empty_store ''arch=amd64,queue=default'' = [] \<and>
   (let A = example_job ''J1'' [''queue=default'', ''arch=amd64''];
        B = example_job ''J2'' [''arch=amd64'', ''queue=default''];
        q = [''queue=default'', ''arch=amd64''];
        s1 = snd (AddJob example_codec A empty_store);
        s2 = snd (AddJob example_codec B s1);
        s3 = snd (ClaimJob example_codec q s2);
        s4 = snd (ClaimJob example_codec q s3)
    in fst (ClaimJob example_codec q s2) = Inr (Some A) \<and>
       fst (ClaimJob example_codec q s3) = Inr (Some B) \<and>
       fst (ClaimJob example_codec q s4) = Inr None)"
  using claims_in_insertion_order
     [of empty_store "''arch=amd64,queue=default''"
         "example_job ''J1'' [''queue=default'', ''arch=amd64'']"
         "example_job ''J2'' [''arch=amd64'', ''queue=default'']"
         example_codec "''J1;queue=default,arch=amd64''" "''J2;arch=amd64,queue=default''"
         "[''queue=default'', ''arch=amd64'']" "[''queue=default'', ''arch=amd64'']"
         "[''queue=default'', ''arch=amd64'']"]
  by (simp add: Let_def wf_store_def queue_of_def example_defs)

text \<open>
  C6, as the code has it. When the metadata record of the job is gone and the store is
  reachable, \<open>CompleteJob\<close> returns no error, and the store after it is the store before
  with a new record for the job that holds the field \<open>status = complete\<close> alone and has
  no time to live; every other key is unchanged.
\<close>

theorem CompleteJob_after_expiry:
  assumes "outage s = []" and "keys s (meta_key uuid) = None"
  shows "CompleteJob uuid s =
           (None, s\<lparr>keys := (keys s)(meta_key uuid \<mapsto>
                      \<lparr>content = RHash [''status'' \<mapsto> ''complete''], ttl = None\<rparr>)\<rparr>)"
  using assms by (simp add: CompleteJob_def HSet_def arrives_reachable hset_fields_def)

theorem CompleteJob_after_expiry_witness:
  "outage empty_store = [] \<and> keys empty_store (meta_key ''j1'') = None \<and>
   CompleteJob ''j1'' empty_store =
     (None, empty_store\<lparr>keys := (keys empty_store)(meta_key ''j1'' \<mapsto>
                \<lparr>content = RHash [''status'' \<mapsto> ''complete''], ttl = None\<rparr>)\<rparr>)"
  using CompleteJob_after_expiry [of empty_store "''j1''"]
  by (simp add: empty_store_def)

text \<open>
  C6 as stated fails: a job is inserted, an hour passes and its record is gone; its
  completion then returns no error but changes the store, which has a record for the
  job again.
\<close>

theorem CompleteJob_after_expiry_counterexample:
  "(let s = elapse 3600 (snd (AddJob example_codec (example_job ''j1'' [''queue=default''])
                                 empty_store))
    in metadata s ''j1'' = None \<and>
       fst (CompleteJob ''j1'' s) = None \<and>
       metadata (snd (CompleteJob ''j1'' s)) ''j1'' \<noteq> None \<and>
       snd (CompleteJob ''j1'' s) \<noteq> s)"
proof -
  define s where
    "s = elapse 3600 (snd (AddJob example_codec (example_job ''j1'' [''queue=default''])
                             empty_store))"
  have k: "keys s (meta_key ''j1'') = None"
    unfolding s_def by (simp add: elapse_def store_defs example_defs)
  then have m: "metadata s ''j1'' = None"
    by (simp add: metadata_def)
  have o: "outage s = []"
    unfolding s_def by (simp add: elapse_def store_defs example_defs)
  have r: "fst (CompleteJob ''j1'' s) = None"
    using k o by (simp add: CompleteJob_def HSet_def arrives_reachable)
  have m': "metadata (snd (CompleteJob ''j1'' s)) ''j1'' \<noteq> None"
    using k o by (simp add: CompleteJob_def HSet_def arrives_reachable metadata_def)
  from m m' have "snd (CompleteJob ''j1'' s) \<noteq> s" by auto
  with m r m' show ?thesis unfolding s_def Let_def by simp
qed

text \<open>
  C9. On a reachable, well-formed store, a claim on a key whose queue is empty or
  absent returns no job and no error, and the handler answers 204 to every request
  with such a query.
\<close>

theorem claim_without_job:
  assumes "outage s = []" and "wf_store s" and "queue_of s (NormalizeQueryRules rules) = []"
  shows "fst (ClaimJob c rules s) = Inr None \<and>
         (\<forall>q. q \<noteq> '''' \<and> map strings_TrimSpace (strings_Split q CHR '','') = rules \<longrightarrow>
              fst (handleGetJob c q s) = \<lparr>code = 204, body = NoBody\<rparr>)"
proof -
  have "fst (ClaimJob c rules s) = Inr None"
    using assms by (rule ClaimJob_empty)
  then show ?thesis
    by (auto simp: handleGetJob_def Let_def split: prod.splits sum.splits option.splits)
qed

theorem claim_without_job_witness:
  "(let s = snd (AddJob example_codec (example_job ''j1'' [''queue=default'']) empty_store)
    in outage s = [] \<and> wf_store s \<and> queue_of s ''queue=default'' = [''j1;queue=default''] \<and>
       queue_of s (NormalizeQueryRules [''nonexistent=rule'']) = [] \<and>
       map strings_TrimSpace (strings_Split ''nonexistent=rule'' CHR '','') = [''nonexistent=rule''] \<and>
       fst (ClaimJob example_codec [''nonexistent=rule''] s) = Inr None \<and>
       fst (handleGetJob example_codec ''nonexistent=rule'' s) = \<lparr>code = 204, body = NoBody\<rparr>)"
proof -
  define s where
    "s = snd (AddJob example_codec (example_job ''j1'' [''queue=default'']) empty_store)"
  have h: "outage s = []" "wf_store s" "queue_of s ''queue=default'' = [''j1;queue=default'']"
    "queue_of s (NormalizeQueryRules [''nonexistent=rule'']) = []"
    unfolding s_def by (simp_all add: wf_store_def queue_of_def store_defs example_defs)
  have t: "map strings_TrimSpace (strings_Split ''nonexistent=rule'' CHR '','') = [''nonexistent=rule'']"
    by (simp add: strings_TrimSpace_def trimLeftSpace.simps trimRightSpace.simps
                  space_prefix_def space_suffix_def unicode_spaces_def)
  from claim_without_job [OF h(1) h(2) h(4), of example_codec] t h
  show ?thesis unfolding s_def Let_def by simp
qed

text \<open>
  C10. On a reachable, well-formed store \<open>CompleteJob\<close> returns no error for every job
  id. When the job has no metadata record (never inserted, or expired), the record it
  creates holds the field \<open>status = complete\<close> alone and has no time to live: it is
  still there, unchanged, after any time.
\<close>

theorem CompleteJob_succeeds:
  assumes "outage s = []" and "wf_store s"
  shows "fst (CompleteJob uuid s) = None \<and>
         (metadata s uuid = None \<longrightarrow>
            (\<forall>d. keys (elapse d (snd (CompleteJob uuid s))) (meta_key uuid)
                 = Some \<lparr>content = RHash [''status'' \<mapsto> ''complete''], ttl = None\<rparr>))"
proof (cases rule: metadata_cases[OF assms(2), of uuid])
  case 1
  then show ?thesis using assms(1)
    by (simp add: CompleteJob_def HSet_def arrives_reachable hset_fields_def elapse_def)
next
  case (2 e h)
  then show ?thesis using assms(1)
    by (simp add: CompleteJob_def HSet_def arrives_reachable)
qed

theorem CompleteJob_succeeds_witness:
  "outage empty_store = [] \<and> wf_store empty_store \<and> metadata empty_store ''never-inserted'' = None \<and>
   fst (CompleteJob ''never-inserted'' empty_store) = None \<and>
   keys (elapse 1000000 (snd (CompleteJob ''never-inserted'' empty_store)))
        (meta_key ''never-inserted'')
     = Some \<lparr>content = RHash [''status'' \<mapsto> ''complete''], ttl = None\<rparr>"
proof -
  have h: "outage empty_store = []" "wf_store empty_store"
    "metadata empty_store ''never-inserted'' = None"
    by (simp_all add: empty_store_def wf_store_def metadata_def)
  from CompleteJob_succeeds [OF h(1) h(2), of "''never-inserted''"] h
  show ?thesis by simp
qed

section \<open>Claims about the matching API\<close>

text \<open>
  C8, as the code has it. A claim request is answered 400 exactly when its \<open>query\<close>
  parameter is missing or empty, and a completion request exactly when its job id is
  empty; a request answered 400 leaves the store as it was, no command sent.
\<close>

theorem handlers_validate:
  "(code (fst (handleGetJob c q s)) = 400 \<longleftrightarrow> q = '''') \<and>
   (q = '''' \<longrightarrow> snd (handleGetJob c q s) = s) \<and>
   (code (fst (handleCompleteJob u s)) = 400 \<longleftrightarrow> u = '''') \<and>
   (u = '''' \<longrightarrow> snd (handleCompleteJob u s) = s)"
  by (auto simp: handleGetJob_def handleCompleteJob_def Let_def
           split: prod.splits sum.splits option.splits)

theorem handlers_validate_witness:
  "code (fst (handleGetJob example_codec '''' empty_store)) = 400 \<and>
   snd (handleGetJob example_codec '''' empty_store) = empty_store \<and>
   code (fst (handleCompleteJob '''' empty_store)) = 400 \<and>
   snd (handleCompleteJob '''' empty_store) = empty_store \<and>
   code (fst (handleGetJob example_codec ''queue=default'' empty_store)) \<noteq> 400 \<and>
   code (fst (handleCompleteJob ''j1'' empty_store)) \<noteq> 400"
  using handlers_validate [of example_codec "''''" empty_store "''''"]
        handlers_validate [of example_codec "''queue=default''" empty_store "''j1''"]
  by simp

text \<open>
  C8 as stated fails: a request whose query is one blank carries no rule that is not
  empty, yet it is not rejected. It reaches the store and takes the job that was
  inserted with no rule.
\<close>

theorem handlers_validate_counterexample:
  "(let s = snd (AddJob example_codec (example_job ''j1'' []) empty_store)
    in map strings_TrimSpace (strings_Split '' '' CHR '','') = [''''] \<and>
       queue_of s '''' = [''j1;''] \<and>
       fst (handleGetJob example_codec '' '' s)
         = \<lparr>code = 200, body = JobBody (example_job ''j1'' [])\<rparr> \<and>
       queue_of (snd (handleGetJob example_codec '' '' s)) '''' = [])"
proof -
  have t: "map strings_TrimSpace (strings_Split '' '' CHR '','') = ['''']"
    by (simp add: strings_TrimSpace_def trimLeftSpace.simps trimRightSpace.simps
                  space_prefix_def space_suffix_def unicode_spaces_def)
  show ?thesis
    unfolding Let_def handleGetJob_def t
    by (simp add: queue_of_def store_defs example_defs)
qed

section \<open>Concurrent claims\<close>

lemma claim_pop_head:
  assumes "outage s = []" and "wf_store s"
    and "queue_of s (NormalizeQueryRules rules) = data # rest"
    and "json_Unmarshal c data = Some job"
  shows "fst (claim_pop c rules s) = Inr (Some job)"
    and "outage (snd (claim_pop c rules s)) = []"
    and "queue_of (snd (claim_pop c rules s)) (NormalizeQueryRules rules) = rest"
proof -
  let ?k = "NormalizeQueryRules rules"
  from assms(3) obtain e where "keys s (jobs_key ?k) = Some e" "content e = RList (data # rest)"
    by (cases rule: queue_of_cases[OF assms(2), of ?k]) auto
  then show "fst (claim_pop c rules s) = Inr (Some job)"
    and "outage (snd (claim_pop c rules s)) = []"
    and "queue_of (snd (claim_pop c rules s)) ?k = rest"
    using assms(1,4)
    by (simp_all add: claim_pop_def LPop_def arrives_reachable Let_def queue_of_def)
qed

lemma claim_pop_nothing:
  assumes "outage s = []" and "wf_store s" and "queue_of s (NormalizeQueryRules rules) = []"
  shows "fst (claim_pop c rules s) = Inr None"
    and "outage (snd (claim_pop c rules s)) = []"
    and "queue_of (snd (claim_pop c rules s)) (NormalizeQueryRules rules) = []"
proof -
  let ?k = "NormalizeQueryRules rules"
  have "fst (claim_pop c rules s) = Inr None \<and> outage (snd (claim_pop c rules s)) = [] \<and>
        queue_of (snd (claim_pop c rules s)) ?k = []"
  proof (cases rule: queue_of_cases[OF assms(2), of ?k])
    case 1
    then show ?thesis using assms(1)
      by (simp add: claim_pop_def LPop_def arrives_reachable queue_of_def)
  next
    case (2 e xs)
    then show ?thesis using assms(1,3)
      by (simp add: claim_pop_def LPop_def arrives_reachable queue_of_def)
  qed
  then show "fst (claim_pop c rules s) = Inr None"
    and "outage (snd (claim_pop c rules s)) = []"
    and "queue_of (snd (claim_pop c rules s)) ?k = []"
    by simp_all
qed

lemma claim_mark_reachable:
  assumes "outage s = []" and "wf_store s"
  shows "fst (claim_mark job s) = Inr (Some job)"
    and "outage (snd (claim_mark job s)) = []"
    and "queue_of (snd (claim_mark job s)) k = queue_of s k"
proof -
  have "fst (claim_mark job s) = Inr (Some job) \<and> outage (snd (claim_mark job s)) = [] \<and>
        queue_of (snd (claim_mark job s)) k = queue_of s k"
  proof (cases rule: metadata_cases[OF assms(2), of "UUID job"])
    case 1
    with assms(1) show ?thesis
      by (simp add: claim_mark_def HSet_def arrives_reachable Let_def queue_of_def)
  next
    case (2 e h)
    with assms(1) show ?thesis
      by (simp add: claim_mark_def HSet_def arrives_reachable Let_def queue_of_def)
  qed
  then show "fst (claim_mark job s) = Inr (Some job)"
    and "outage (snd (claim_mark job s)) = []"
    and "queue_of (snd (claim_mark job s)) k = queue_of s k"
    by simp_all
qed

lemma wf_store_claimer_step: "wf_store s \<Longrightarrow> wf_store (snd (claimer_step c p s))"
  by (cases p)
     (simp_all add: claimer_step_def split_beta wf_store_claim_pop wf_store_claim_mark
               split: sum.splits option.splits)

text \<open>One command of one caller keeps the state of the callers.\<close>

lemma one_job_inv_step:
  assumes inv: "one_job_inv k data job ps s" and dec: "json_Unmarshal c data = Some job"
    and i: "i < length ps"
  shows "one_job_inv k data job (ps[i := fst (claimer_step c (ps ! i) s)])
           (snd (claimer_step c (ps ! i) s))"
proof -
  from inv have o: "outage s = []" and wf: "wf_store s"
    by (simp_all add: one_job_inv_def)
  let ?p = "fst (claimer_step c (ps ! i) s)" and ?s = "snd (claimer_step c (ps ! i) s)"
  have wf': "wf_store ?s" using wf by (rule wf_store_claimer_step)
  from inv consider
    (queued) "queue_of s k = [data]" "\<forall>i < length ps. about_to_pop k (ps ! i)"
  | (taken) h where "queue_of s k = []" "h < length ps" "holds_job job (ps ! h)"
      "\<forall>j < length ps. j \<noteq> h \<longrightarrow> without_job k (ps ! j)"
    by (auto simp: one_job_inv_def)
  then show ?thesis
  proof cases
    case queued
    from queued(2) i obtain rules where r: "ps ! i = Calling rules" "NormalizeQueryRules rules = k"
      by (cases "ps ! i") (auto simp: about_to_pop_def)
    have q: "queue_of s (NormalizeQueryRules rules) = data # []"
      using queued(1) r(2) by simp
    note pop = claim_pop_head[OF o wf q dec]
    have p: "?p = Marking job" and o': "outage ?s = []" and q': "queue_of ?s k = []"
      using pop r by (simp_all add: claimer_step_def split_beta)
    have "\<forall>j < length ps. j \<noteq> i \<longrightarrow> without_job k (ps ! j)"
    proof (intro allI impI)
      fix j assume "j < length ps" "j \<noteq> i"
      with queued(2) have "about_to_pop k (ps ! j)" by simp
      then show "without_job k (ps ! j)"
        by (cases "ps ! j") (simp_all add: about_to_pop_def without_job_def)
    qed
    then have "\<exists>h < length (ps[i := ?p]). holds_job job (ps[i := ?p] ! h) \<and>
                 (\<forall>j < length (ps[i := ?p]). j \<noteq> h \<longrightarrow> without_job k (ps[i := ?p] ! j))"
      using i p by (intro exI[of _ i]) (simp add: holds_job_def)
    with o' wf' q' show ?thesis by (simp add: one_job_inv_def)
  next
    case taken
    show ?thesis
    proof (cases "i = h")
      case True
      from taken(3) True consider "ps ! i = Marking job" | "ps ! i = Returned (Inr (Some job))"
        by (auto simp: holds_job_def)
      then have "holds_job job ?p \<and> outage ?s = [] \<and> queue_of ?s k = []"
      proof cases
        case 1
        then show ?thesis
          using claim_mark_reachable(1,2)[OF o wf, of job]
            claim_mark_reachable(3)[OF o wf, of job k] taken(1)
          by (simp add: claimer_step_def split_beta holds_job_def)
      next
        case 2
        then show ?thesis using o taken(1) by (simp add: claimer_step_def holds_job_def)
      qed
      moreover have "\<forall>j < length (ps[i := ?p]). j \<noteq> i \<longrightarrow> without_job k (ps[i := ?p] ! j)"
        using taken(4) True by simp
      ultimately have "\<exists>h < length (ps[i := ?p]). holds_job job (ps[i := ?p] ! h) \<and>
                 (\<forall>j < length (ps[i := ?p]). j \<noteq> h \<longrightarrow> without_job k (ps[i := ?p] ! j))"
        using i by (intro exI[of _ i]) simp
      with \<open>holds_job job ?p \<and> outage ?s = [] \<and> queue_of ?s k = []\<close> wf' show ?thesis
        by (simp add: one_job_inv_def)
    next
      case False
      with taken(4) i have w: "without_job k (ps ! i)" by simp
      then consider rules where "ps ! i = Calling rules" "NormalizeQueryRules rules = k"
        | "ps ! i = Returned (Inr None)"
        by (cases "ps ! i") (auto simp: without_job_def)
      then have "without_job k ?p \<and> outage ?s = [] \<and> queue_of ?s k = []"
      proof cases
        case 1
        have q: "queue_of s (NormalizeQueryRules rules) = []" using taken(1) 1(2) by simp
        note pop = claim_pop_nothing[OF o wf q, of c]
        with 1 show ?thesis by (simp add: claimer_step_def split_beta without_job_def)
      next
        case 2
        then show ?thesis using o taken(1) by (simp add: claimer_step_def without_job_def)
      qed
      moreover have "\<exists>h < length (ps[i := ?p]). holds_job job (ps[i := ?p] ! h) \<and>
                 (\<forall>j < length (ps[i := ?p]). j \<noteq> h \<longrightarrow> without_job k (ps[i := ?p] ! j))"
      proof (intro exI[of _ h] conjI allI impI)
        show "h < length (ps[i := ?p])" using taken(2) by simp
        show "holds_job job (ps[i := ?p] ! h)" using taken(3) False by simp
        fix j assume "j < length (ps[i := ?p])" "j \<noteq> h"
        then show "without_job k (ps[i := ?p] ! j)"
          using taken(4) calculation by (cases "j = i") simp_all
      qed
      ultimately show ?thesis using wf' by (simp add: one_job_inv_def)
    qed
  qed
qed

lemma one_job_inv_interleave:
  assumes "one_job_inv k data job ps s" and "json_Unmarshal c data = Some job"
  shows "one_job_inv k data job (fst (interleave c schedule ps s))
           (snd (interleave c schedule ps s))"
  using assms(1)
proof (induction schedule arbitrary: ps s)
  case Nil
  then show ?case by simp
next
  case (Cons i schedule)
  show ?case
  proof (cases "i < length ps")
    case True
    from one_job_inv_step[OF Cons.prems assms(2) True]
    have "one_job_inv k data job (ps[i := fst (claimer_step c (ps ! i) s)])
            (snd (claimer_step c (ps ! i) s))" .
    from Cons.IH[OF this] True show ?thesis by (simp add: split_beta)
  next
    case False
    with Cons.IH[OF Cons.prems] show ?thesis by simp
  qed
qed

text \<open>A caller that is scheduled for two commands has returned.\<close>

lemma progress_step: "min 2 (Suc (progress p)) \<le> progress (fst (claimer_step c p s))"
  by (cases p) (simp_all add: claimer_step_def progress_def split_beta split: sum.splits option.splits)

lemma length_interleave: "length (fst (interleave c schedule ps s)) = length ps"
  by (induction schedule arbitrary: ps s) (simp_all add: split_beta)

lemma progress_interleave:
  "i < length ps \<Longrightarrow>
   min 2 (progress (ps ! i) + count_list schedule i)
     \<le> progress (fst (interleave c schedule ps s) ! i)"
proof (induction schedule arbitrary: ps s)
  case Nil
  then show ?case by simp
next
  case (Cons j schedule)
  show ?case
  proof (cases "j < length ps")
    case False
    with Cons.prems have "j \<noteq> i" by auto
    with Cons.IH[OF Cons.prems, of s] False show ?thesis by simp
  next
    case True
    let ?ps = "ps[j := fst (claimer_step c (ps ! j) s)]"
    let ?s = "snd (claimer_step c (ps ! j) s)"
    have l: "i < length ?ps" using Cons.prems by simp
    note ih = Cons.IH[OF l, of ?s]
    show ?thesis
    proof (cases "j = i")
      case True
      have "min 2 (Suc (progress (ps ! i))) \<le> progress (?ps ! i)"
        using progress_step[of "ps ! i" c s] True Cons.prems by simp
      with ih True \<open>j < length ps\<close> show ?thesis by (simp add: split_beta)
    next
      case False
      with ih True show ?thesis by (simp add: split_beta)
    qed
  qed
qed

lemma progress_returned: "2 \<le> progress p \<Longrightarrow> \<exists>r. p = Returned r"
  by (cases p) (simp_all add: progress_def)

text \<open>Counting the callers with a given result.\<close>

lemma count_single:
  assumes "h < length ps" and "ps ! h = x" and "\<forall>j < length ps. j \<noteq> h \<longrightarrow> ps ! j = y"
    and "x \<noteq> y"
  shows "length (filter (\<lambda>p. p = x) ps) = 1" and "length (filter (\<lambda>p. p = y) ps) = length ps - 1"
proof -
  have ps: "ps = take h ps @ x # drop (Suc h) ps"
    using assms(1,2) by (metis id_take_nth_drop)
  have t: "\<forall>p \<in> set (take h ps). p = y"
    using assms(1,3) by (auto simp: in_set_conv_nth)
  have d: "\<forall>p \<in> set (drop (Suc h) ps). p = y"
    using assms(1,3) by (auto simp: in_set_conv_nth)
  have fx: "filter (\<lambda>p. p = x) (take h ps) = []" "filter (\<lambda>p. p = x) (drop (Suc h) ps) = []"
    using t d assms(4) by (auto simp: filter_empty_conv)
  have fy: "filter (\<lambda>p. p = y) (take h ps) = take h ps"
    "filter (\<lambda>p. p = y) (drop (Suc h) ps) = drop (Suc h) ps"
    using t d by (auto simp: filter_id_conv)
  have "length (filter (\<lambda>p. p = x) (take h ps @ x # drop (Suc h) ps)) = 1"
    using fx by simp
  with ps show "length (filter (\<lambda>p. p = x) ps) = 1" by simp
  have "length (filter (\<lambda>p. p = y) (take h ps @ x # drop (Suc h) ps)) = length ps - 1"
    using fy assms(1,4) by auto
  with ps show "length (filter (\<lambda>p. p = y) ps) = length ps - 1" by simp
qed

text \<open>A single caller, scheduled for its two commands, is the function \<open>ClaimJob\<close>.\<close>

lemma interleave_single_caller:
  "interleave c [0, 0] [Calling rules] s
     = ([Returned (fst (ClaimJob c rules s))], snd (ClaimJob c rules s))"
  by (simp add: claimer_step_def ClaimJob_def split_beta split: sum.splits option.splits)

text \<open>
  C1. The queue of a key holds exactly one job on a reachable, well-formed store, and
  any number of callers claim on that key at once. The server takes their commands one
  at a time; whatever the order in which it does, once every caller has been
  scheduled for its two commands exactly one caller has returned the job and each of
  the others has returned no job.
\<close>

theorem claim_at_most_once:
  assumes "outage s = []" and "wf_store s" and "queue_of s k = [data]"
    and "json_Unmarshal c data = Some job"
    and "callers \<noteq> []" and "\<forall>rules \<in> set callers. NormalizeQueryRules rules = k"
    and "\<forall>i < length callers. 2 \<le> count_list schedule i"
  shows "let ps = fst (interleave c schedule (map Calling callers) s)
         in length ps = length callers \<and>
            length (filter (\<lambda>p. p = Returned (Inr (Some job))) ps) = 1 \<and>
            length (filter (\<lambda>p. p = Returned (Inr None)) ps) = length callers - 1"
proof -
  define ps where "ps = fst (interleave c schedule (map Calling callers) s)"
  define s' where "s' = snd (interleave c schedule (map Calling callers) s)"
  have len: "length ps = length callers"
    unfolding ps_def by (simp add: length_interleave)
  have "one_job_inv k data job (map Calling callers) s"
    using assms(1,2,3,6) by (simp add: one_job_inv_def about_to_pop_def)
  then have inv: "one_job_inv k data job ps s'"
    unfolding ps_def s'_def using assms(4) by (rule one_job_inv_interleave)
  have ret: "\<exists>r. ps ! i = Returned r" if "i < length ps" for i
  proof -
    from that len have i: "i < length (map Calling callers)" by simp
    from that len assms(7) have "2 \<le> count_list schedule i" by simp
    with progress_interleave[OF i, of schedule c s]
    have "2 \<le> progress (ps ! i)" unfolding ps_def by (simp add: progress_def)
    then show ?thesis by (rule progress_returned)
  qed
  from assms(5) len have pos: "0 < length ps" by simp
  have "\<not> about_to_pop k (ps ! 0)"
    using ret[OF pos] by (auto simp: about_to_pop_def)
  with inv pos obtain h where h: "h < length ps" "holds_job job (ps ! h)"
    "\<forall>j < length ps. j \<noteq> h \<longrightarrow> without_job k (ps ! j)"
    by (auto simp: one_job_inv_def)
  have x: "ps ! h = Returned (Inr (Some job))"
    using h(2) ret[OF h(1)] by (auto simp: holds_job_def)
  have y: "\<forall>j < length ps. j \<noteq> h \<longrightarrow> ps ! j = Returned (Inr None)"
  proof (intro allI impI)
    fix j assume j: "j < length ps" "j \<noteq> h"
    with h(3) have "without_job k (ps ! j)" by simp
    with ret[OF j(1)] show "ps ! j = Returned (Inr None)"
      by (auto simp: without_job_def)
  qed
  have ne: "Returned (Inr (Some job)) \<noteq> Returned (Inr None)" by simp
  from count_single[OF h(1) x y ne] len show ?thesis
    unfolding Let_def ps_def by simp
qed

theorem claim_at_most_once_witness:
  "(let s = snd (AddJob example_codec (example_job ''j1'' [''queue=default'']) empty_store);
        ps = fst (interleave example_codec [1, 0, 2, 0, 1, 2]
                    (map Calling [[''queue=default''], [''queue=default''], [''queue=default'']]) s)
    in outage s = [] \<and> wf_store s \<and> queue_of s ''queue=default'' = [''j1;queue=default''] \<and>
       length (filter (\<lambda>p. p = Returned (Inr (Some (example_job ''j1'' [''queue=default''])))) ps) = 1 \<and>
       length (filter (\<lambda>p. p = Returned (Inr None)) ps) = 2)"
proof -
  define s where
    "s = snd (AddJob example_codec (example_job ''j1'' [''queue=default'']) empty_store)"
  have h: "outage s = []" "wf_store s" "queue_of s ''queue=default'' = [''j1;queue=default'']"
    unfolding s_def by (simp_all add: wf_store_def queue_of_def store_defs example_defs)
  have d: "json_Unmarshal example_codec ''j1;queue=default''
             = Some (example_job ''j1'' [''queue=default''])"
    by (simp add: example_defs)
  have c: "[[''queue=default''], [''queue=default''], [''queue=default'']] \<noteq> []"
    "\<forall>rules \<in> set [[''queue=default''], [''queue=default''], [''queue=default'']].
        NormalizeQueryRules rules = ''queue=default''"
    by (simp_all add: example_defs)
  have f: "\<forall>i < length [[''queue=default''], [''queue=default''], [''queue=default'']].
             2 \<le> count_list [1, 0, 2, 0, 1, 2] i"
    by (simp add: less_Suc_eq)
  from claim_at_most_once [OF h d c f] h show ?thesis
    unfolding Let_def s_def by simp
qed

section \<open>What the commands do to the queues and to the statuses\<close>

lemma queued_ids_RPush:
  "queued_ids c (snd (RPush key' d s)) key =
     (if key = key' \<and> \<not> isl (fst (RPush key' d s)) then queued_ids c s key @ [uuid_of c d]
      else queued_ids c s key)"
  by (auto simp: queued_ids_def RPush_def arrives_def
           split: list.splits option.splits redis_value.splits)

lemma queued_ids_Expire:
  "0 < n \<Longrightarrow> queued_ids c (snd (Expire key' n s)) key = queued_ids c s key"
  by (auto simp: queued_ids_def Expire_def arrives_def
           split: list.splits option.splits redis_value.splits)

lemma queued_ids_HSet:
  "queued_ids c (snd (HSet key' fvs s)) key = queued_ids c s key"
  by (auto simp: queued_ids_def HSet_def arrives_def
           split: list.splits option.splits redis_value.splits)

lemma queued_ids_LPop:
  "queued_ids c (snd (LPop key' s)) key =
     (if key = key' \<and> \<not> isl (fst (LPop key' s)) then tl (queued_ids c s key)
      else queued_ids c s key)"
  by (auto simp: queued_ids_def LPop_def arrives_def
           split: list.splits option.splits redis_value.splits)

lemma queued_ids_LPop_head:
  "fst (LPop key s) = Inr d \<Longrightarrow>
   queued_ids c s key = uuid_of c d # queued_ids c (snd (LPop key s)) key"
  by (auto simp: queued_ids_def LPop_def arrives_def
           split: list.splits option.splits redis_value.splits if_splits)

lemma queued_ids_elapse:
  "queued_ids c (elapse d s) key = queued_ids c s key \<or> queued_ids c (elapse d s) key = []"
  by (auto simp: queued_ids_def elapse_def split: option.splits redis_value.splits)

lemma status_of_RPush: "status_of (snd (RPush (jobs_key k) d s)) u = status_of s u"
  by (auto simp: status_of_def metadata_def RPush_def arrives_def
           split: list.splits option.splits redis_value.splits)

lemma status_of_LPop: "status_of (snd (LPop (jobs_key k) s)) u = status_of s u"
  by (auto simp: status_of_def metadata_def LPop_def arrives_def
           split: list.splits option.splits redis_value.splits)

lemma status_of_Expire: "0 < n \<Longrightarrow> status_of (snd (Expire key n s)) u = status_of s u"
  by (auto simp: status_of_def metadata_def Expire_def arrives_def
           split: list.splits option.splits redis_value.splits)

lemma status_of_HSet_other:
  "u \<noteq> u' \<Longrightarrow> status_of (snd (HSet (meta_key u') fvs s)) u = status_of s u"
  by (auto simp: status_of_def metadata_def HSet_def arrives_def
           split: list.splits option.splits redis_value.splits)

lemma status_of_HSet_same:
  "(\<And>h. hset_fields fvs h ''status'' = Some x) \<Longrightarrow>
   status_of (snd (HSet (meta_key u) fvs s)) u = status_of s u \<or>
   status_of (snd (HSet (meta_key u) fvs s)) u = Some x"
  by (auto simp: status_of_def metadata_def HSet_def arrives_def
           split: list.splits option.splits redis_value.splits)

lemma status_of_HSet_ok:
  "(\<And>h. hset_fields fvs h ''status'' = Some x) \<Longrightarrow>
   \<not> isl (fst (HSet (meta_key u) fvs s)) \<Longrightarrow>
   status_of (snd (HSet (meta_key u) fvs s)) u = Some x"
  by (auto simp: status_of_def metadata_def HSet_def arrives_def
           split: list.splits option.splits redis_value.splits if_splits)

lemma status_of_elapse:
  "status_of (elapse d s) u = status_of s u \<or> status_of (elapse d s) u = None"
  by (auto simp: status_of_def metadata_def elapse_def split: option.splits redis_value.splits)

section \<open>What the operations do to the queues and to the statuses\<close>

lemma reserved_status:
  "hset_fields [(''queue_key'', a), (''query_rules'', b), (''reserved_at'', t),
                (''status'', ''reserved'')] h ''status'' = Some ''reserved''"
  by (simp add: hset_fields_def)

lemma single_status: "hset_fields [(''status'', x)] h ''status'' = Some x"
  by (simp add: hset_fields_def)

lemma zero_less_hour: "0 < hour"
  by (simp add: hour_def)

lemma AddJob_queued_ids:
  "queued_ids c (snd (AddJob c job s)) key = queued_ids c s key \<or>
   (key = jobs_key (NormalizeQueryRules (AgentQueryRules job)) \<and>
    (\<exists>d. json_Marshal c job = Some d \<and>
         queued_ids c (snd (AddJob c job s)) key = queued_ids c s key @ [uuid_of c d]))"
  by (simp add: AddJob_def Let_def split_beta queued_ids_RPush queued_ids_Expire
                queued_ids_HSet zero_less_hour
           split: option.splits sum.splits)

lemma AddJob_status_other:
  "u \<noteq> UUID job \<Longrightarrow> status_of (snd (AddJob c job s)) u = status_of s u"
  by (simp add: AddJob_def Let_def split_beta status_of_RPush status_of_Expire
                status_of_HSet_other zero_less_hour
           split: option.splits sum.splits)

lemma AddJob_status_same:
  "status_of (snd (AddJob c job s)) (UUID job) = status_of s (UUID job) \<or>
   status_of (snd (AddJob c job s)) (UUID job) = Some ''reserved''"
proof -
  let ?k = "jobs_key (NormalizeQueryRules (AgentQueryRules job))"
  let ?fvs = "[(''queue_key'', QueueKey job),
               (''query_rules'', NormalizeQueryRules (AgentQueryRules job)),
               (''reserved_at'', format_RFC3339 c (ReservedAt job)),
               (''status'', ''reserved'')]"
  have h: "status_of (snd (HSet (meta_key (UUID job)) ?fvs s2)) (UUID job) = status_of s2 (UUID job) \<or>
           status_of (snd (HSet (meta_key (UUID job)) ?fvs s2)) (UUID job) = Some ''reserved''"
    for s2
    by (rule status_of_HSet_same) (rule reserved_status)
  show ?thesis
  proof (cases "json_Marshal c job")
    case None
    then show ?thesis by (simp add: AddJob_def)
  next
    case (Some d)
    let ?s2 = "snd (Expire ?k hour (snd (RPush ?k d s)))"
    have s2: "status_of ?s2 (UUID job) = status_of s (UUID job)"
      by (simp add: status_of_RPush status_of_Expire zero_less_hour)
    from h[of ?s2] s2 Some show ?thesis
      by (auto simp: AddJob_def Let_def split_beta status_of_RPush status_of_Expire zero_less_hour
               split: sum.splits)
  qed
qed

lemma claim_pop_queued_ids_other:
  "key \<noteq> jobs_key (NormalizeQueryRules rules) \<Longrightarrow>
   queued_ids c (snd (claim_pop c rules s)) key = queued_ids c s key"
  by (simp add: claim_pop_def Let_def split_beta queued_ids_LPop split: sum.splits option.splits)

lemma claim_pop_status: "status_of (snd (claim_pop c rules s)) u = status_of s u"
  by (simp add: claim_pop_def Let_def split_beta status_of_LPop split: sum.splits option.splits)

lemma claim_pop_queued_ids:
  "fst (claim_pop c rules s) = Inr (Some job) \<Longrightarrow>
   queued_ids c s (jobs_key (NormalizeQueryRules rules))
     = Some (UUID job) # queued_ids c (snd (claim_pop c rules s)) (jobs_key (NormalizeQueryRules rules))"
  by (auto simp: claim_pop_def Let_def split_beta uuid_of_def
           dest!: queued_ids_LPop_head[where c = c]
           split: sum.splits option.splits if_splits)

lemma claim_pop_queued_ids_sub:
  "queued_ids c (snd (claim_pop c rules s)) key = queued_ids c s key \<or>
   queued_ids c (snd (claim_pop c rules s)) key = tl (queued_ids c s key)"
  by (simp add: claim_pop_def Let_def split_beta queued_ids_LPop split: sum.splits option.splits)

lemma claim_mark_queued_ids: "queued_ids c (snd (claim_mark job s)) key = queued_ids c s key"
  by (simp add: claim_mark_def Let_def split_beta queued_ids_HSet split: sum.splits)

lemma claim_mark_status_other:
  "u \<noteq> UUID job \<Longrightarrow> status_of (snd (claim_mark job s)) u = status_of s u"
  by (simp add: claim_mark_def Let_def split_beta status_of_HSet_other split: sum.splits)

lemma claim_mark_result:
  "fst (claim_mark job s) = Inr (Some job) \<and> status_of (snd (claim_mark job s)) (UUID job) = Some ''claimed'' \<or>
   isl (fst (claim_mark job s)) \<and> status_of (snd (claim_mark job s)) (UUID job) = status_of s (UUID job)"
proof (cases "isl (fst (HSet (meta_key (UUID job)) [(''status'', ''claimed'')] s))")
  case True
  then have "status_of (snd (HSet (meta_key (UUID job)) [(''status'', ''claimed'')] s)) (UUID job)
               = status_of s (UUID job)"
    by (auto simp: status_of_def metadata_def HSet_def arrives_def
             split: list.splits option.splits redis_value.splits if_splits)
  with True show ?thesis
    by (auto simp: claim_mark_def Let_def split_beta split: sum.splits)
next
  case False
  then have "status_of (snd (HSet (meta_key (UUID job)) [(''status'', ''claimed'')] s)) (UUID job)
               = Some ''claimed''"
    by (intro status_of_HSet_ok) (simp_all add: single_status)
  with False show ?thesis
    by (auto simp: claim_mark_def Let_def split_beta split: sum.splits)
qed

lemma CompleteJob_queued_ids: "queued_ids c (snd (CompleteJob uuid s)) key = queued_ids c s key"
  by (simp add: CompleteJob_def Let_def split_beta queued_ids_HSet split: sum.splits)

lemma CompleteJob_status_other:
  "u \<noteq> uuid \<Longrightarrow> status_of (snd (CompleteJob uuid s)) u = status_of s u"
  by (simp add: CompleteJob_def Let_def split_beta status_of_HSet_other split: sum.splits)

lemma CompleteJob_status_same:
  "status_of (snd (CompleteJob uuid s)) uuid = status_of s uuid \<or>
   status_of (snd (CompleteJob uuid s)) uuid = Some ''complete''"
proof -
  have "status_of (snd (HSet (meta_key uuid) [(''status'', ''complete'')] s)) uuid = status_of s uuid \<or>
        status_of (snd (HSet (meta_key uuid) [(''status'', ''complete'')] s)) uuid = Some ''complete''"
    by (rule status_of_HSet_same) (rule single_status)
  then show ?thesis
    by (auto simp: CompleteJob_def Let_def split_beta split: sum.splits)
qed

section \<open>The life cycle keeps its invariant\<close>

lemma lifecycle_invI:
  assumes "wf_store s" and "claimed \<subseteq> inserted"
    and "\<And>key. distinct (queued_ids c s key)"
    and "\<And>key x. x \<in> set (queued_ids c s key) \<Longrightarrow> \<exists>u. x = Some u \<and> u \<in> inserted \<and> u \<notin> claimed"
    and "\<And>key key'. key \<noteq> key' \<Longrightarrow> set (queued_ids c s key) \<inter> set (queued_ids c s key') = {}"
    and "\<And>u x. status_of s u = Some x \<Longrightarrow>
           (if u \<in> claimed then x = ''claimed'' \<or> x = ''complete'' else x = ''reserved'')"
  shows "lifecycle_inv c s inserted claimed"
  unfolding lifecycle_inv_def using assms by blast

lemma lifecycle_invD:
  assumes "lifecycle_inv c s inserted claimed"
  shows "wf_store s" and "claimed \<subseteq> inserted"
    and "\<And>key. distinct (queued_ids c s key)"
    and "\<And>key x. x \<in> set (queued_ids c s key) \<Longrightarrow> \<exists>u. x = Some u \<and> u \<in> inserted \<and> u \<notin> claimed"
    and "\<And>key key'. key \<noteq> key' \<Longrightarrow> set (queued_ids c s key) \<inter> set (queued_ids c s key') = {}"
    and "\<And>u x. status_of s u = Some x \<Longrightarrow>
           (if u \<in> claimed then x = ''claimed'' \<or> x = ''complete'' else x = ''reserved'')"
  using assms unfolding lifecycle_inv_def by blast+

text \<open>
  A step that only shortens queues from the head, and that writes no status but
  \<open>complete\<close> for a claimed job, keeps the invariant.
\<close>

lemma lifecycle_inv_shrink:
  assumes inv: "lifecycle_inv c s inserted claimed" and wf: "wf_store s'"
    and q: "\<And>key. \<exists>n. queued_ids c s' key = drop n (queued_ids c s key)"
    and st: "\<And>u x. status_of s' u = Some x \<Longrightarrow>
               status_of s u = Some x \<or> (u \<in> claimed \<and> x = ''complete'')"
  shows "lifecycle_inv c s' inserted claimed"
proof (rule lifecycle_invI)
  note d = lifecycle_invD[OF inv]
  show "wf_store s'" by (rule wf)
  show "claimed \<subseteq> inserted" by (rule d(2))
  have sub: "set (queued_ids c s' key) \<subseteq> set (queued_ids c s key)" for key
    using q[of key] by (auto dest: in_set_dropD)
  show "distinct (queued_ids c s' key)" for key
    using q[of key] d(3)[of key] by auto
  show "\<exists>u. x = Some u \<and> u \<in> inserted \<and> u \<notin> claimed" if "x \<in> set (queued_ids c s' key)" for key x
    using that sub[of key] d(4)[of x key] by blast
  show "set (queued_ids c s' key) \<inter> set (queued_ids c s' key') = {}" if "key \<noteq> key'" for key key'
    using d(5)[OF that] sub[of key] sub[of key'] by blast
  show "if u \<in> claimed then x = ''claimed'' \<or> x = ''complete'' else x = ''reserved''"
    if "status_of s' u = Some x" for u x
    using st[OF that] d(6)[of u x] by auto
qed

lemma drop_cases: "ys = xs \<or> ys = tl xs \<or> ys = [] \<Longrightarrow> \<exists>n. ys = drop n xs"
proof (elim disjE)
  assume "ys = xs" then show ?thesis by (intro exI[of _ 0]) simp
next
  assume "ys = tl xs" then show ?thesis by (intro exI[of _ 1]) (simp add: drop_Suc)
next
  assume "ys = []" then show ?thesis by (intro exI[of _ "length xs"]) simp
qed

lemma lifecycle_inv_AddJob:
  assumes inv: "lifecycle_inv c s inserted claimed"
    and fresh: "UUID job \<notin> inserted" and rt: "round_trip c job"
  shows "lifecycle_inv c (snd (AddJob c job s)) (insert (UUID job) inserted) claimed"
proof (rule lifecycle_invI)
  note d = lifecycle_invD[OF inv]
  let ?s = "snd (AddJob c job s)" and ?u = "UUID job"
  have new: "Some ?u \<notin> set (queued_ids c s key)" for key
    using d(4)[of "Some ?u" key] fresh by auto
  have q: "queued_ids c ?s key = queued_ids c s key \<or>
           (key = jobs_key (NormalizeQueryRules (AgentQueryRules job)) \<and>
            queued_ids c ?s key = queued_ids c s key @ [Some ?u])" for key
    using AddJob_queued_ids[of c job s key] rt by (auto simp: round_trip_def uuid_of_def)
  show "wf_store ?s" using d(1) by (rule wf_store_AddJob)
  show "claimed \<subseteq> insert ?u inserted" using d(2) by auto
  show "distinct (queued_ids c ?s key)" for key
    using q[of key] d(3)[of key] new[of key] by auto
  show "\<exists>u. x = Some u \<and> u \<in> insert ?u inserted \<and> u \<notin> claimed"
    if "x \<in> set (queued_ids c ?s key)" for key x
  proof -
    from that q[of key] have "x \<in> set (queued_ids c s key) \<or> x = Some ?u" by auto
    then show ?thesis using d(4)[of x key] d(2) fresh by auto
  qed
  show "set (queued_ids c ?s key) \<inter> set (queued_ids c ?s key') = {}" if "key \<noteq> key'" for key key'
    using d(5)[OF that] q[of key] q[of key'] new[of key] new[of key'] that by auto
  show "if u \<in> claimed then x = ''claimed'' \<or> x = ''complete'' else x = ''reserved''"
    if "status_of ?s u = Some x" for u x
  proof (cases "u = ?u")
    case False
    with that d(6)[of u x] show ?thesis by (simp add: AddJob_status_other)
  next
    case True
    with fresh d(2) have "u \<notin> claimed" by auto
    with that True AddJob_status_same[of c job s] d(6)[of u x] show ?thesis by auto
  qed
qed

lemma lifecycle_inv_ClaimJob:
  assumes inv: "lifecycle_inv c s inserted claimed"
  shows "lifecycle_inv c (snd (ClaimJob c rules s)) inserted
           (returned_id (fst (ClaimJob c rules s)) \<union> claimed)"
proof -
  note d = lifecycle_invD[OF inv]
  let ?k = "jobs_key (NormalizeQueryRules rules)"
  define s1 where "s1 = snd (claim_pop c rules s)"
  have wf1: "wf_store s1" unfolding s1_def using d(1) by (rule wf_store_claim_pop)
  have q1: "\<exists>n. queued_ids c s1 key = drop n (queued_ids c s key)" for key
    unfolding s1_def using claim_pop_queued_ids_sub[of c rules s key] by (intro drop_cases) auto
  have st1: "status_of s1 u = status_of s u" for u
    unfolding s1_def by (rule claim_pop_status)
  have inv1: "lifecycle_inv c s1 inserted claimed"
    using inv wf1 q1 by (rule lifecycle_inv_shrink) (simp add: st1)
  show ?thesis
  proof (cases "\<exists>job. fst (claim_pop c rules s) = Inr (Some job)")
    case False
    then have "ClaimJob c rules s = claim_pop c rules s"
      by (auto simp: ClaimJob_def split: prod.splits sum.splits option.splits)
    moreover from False have "returned_id (fst (claim_pop c rules s)) = {}"
      by (auto simp: returned_id_def split: sum.splits option.splits)
    ultimately show ?thesis using inv1 by (simp add: s1_def)
  next
    case True
    then obtain job where pop: "fst (claim_pop c rules s) = Inr (Some job)" by blast
    then have cj: "ClaimJob c rules s = claim_mark job s1"
      by (simp add: ClaimJob_def s1_def split_beta)
    let ?s = "snd (claim_mark job s1)" and ?u = "UUID job"
    have wf': "wf_store ?s" using wf1 by (rule wf_store_claim_mark)
    have q': "queued_ids c ?s key = queued_ids c s1 key" for key
      by (rule claim_mark_queued_ids)
    note d1 = lifecycle_invD[OF inv1]
    have head: "queued_ids c s ?k = Some ?u # queued_ids c s1 ?k"
      unfolding s1_def using pop by (rule claim_pop_queued_ids)
    have other: "queued_ids c s1 key = queued_ids c s key" if "key \<noteq> ?k" for key
      unfolding s1_def using that by (rule claim_pop_queued_ids_other)
    have gone: "Some ?u \<notin> set (queued_ids c s1 key)" for key
    proof (cases "key = ?k")
      case True
      with d(3)[of ?k] head show ?thesis by auto
    next
      case False
      from d(5)[OF False] head have "Some ?u \<notin> set (queued_ids c s key)" by auto
      with other[OF False] show ?thesis by simp
    qed
    have u: "?u \<in> inserted" "?u \<notin> claimed"
      using d(4)[of "Some ?u" ?k] head by auto
    from claim_mark_result[of job s1] show ?thesis
    proof (elim disjE conjE)
      assume r: "fst (claim_mark job s1) = Inr (Some job)"
        and stu: "status_of ?s ?u = Some ''claimed''"
      have "lifecycle_inv c ?s inserted (insert ?u claimed)"
      proof (rule lifecycle_invI)
        show "wf_store ?s" by (rule wf')
        show "insert ?u claimed \<subseteq> inserted" using d(2) u(1) by auto
        show "distinct (queued_ids c ?s key)" for key using d1(3)[of key] by (simp add: q')
        show "\<exists>v. x = Some v \<and> v \<in> inserted \<and> v \<notin> insert ?u claimed"
          if "x \<in> set (queued_ids c ?s key)" for key x
          using that d1(4)[of x key] gone[of key] by (auto simp: q')
        show "set (queued_ids c ?s key) \<inter> set (queued_ids c ?s key') = {}"
          if "key \<noteq> key'" for key key'
          using d1(5)[OF that] by (simp add: q')
        show "if v \<in> insert ?u claimed then x = ''claimed'' \<or> x = ''complete'' else x = ''reserved''"
          if "status_of ?s v = Some x" for v x
        proof (cases "v = ?u")
          case True
          with that stu show ?thesis by simp
        next
          case False
          with that d1(6)[of v x] show ?thesis by (simp add: claim_mark_status_other)
        qed
      qed
      with r cj show ?thesis by (simp add: returned_id_def)
    next
      assume r: "isl (fst (claim_mark job s1))"
        and stu: "status_of ?s ?u = status_of s1 ?u"
      have "lifecycle_inv c ?s inserted claimed"
      proof (rule lifecycle_inv_shrink[OF inv1 wf'])
        show "\<exists>n. queued_ids c ?s key = drop n (queued_ids c s1 key)" for key
          by (intro exI[of _ 0]) (simp add: q')
        show "status_of s1 v = Some x \<or> v \<in> claimed \<and> x = ''complete''"
          if "status_of ?s v = Some x" for v x
          using that stu by (cases "v = ?u") (simp_all add: claim_mark_status_other)
      qed
      moreover from r have "returned_id (fst (claim_mark job s1)) = {}"
        by (auto simp: returned_id_def isl_def)
      ultimately show ?thesis using cj by simp
    qed
  qed
qed

lemma lifecycle_inv_CompleteJob:
  assumes inv: "lifecycle_inv c s inserted claimed" and cl: "uuid \<in> claimed"
  shows "lifecycle_inv c (snd (CompleteJob uuid s)) inserted claimed"
proof (rule lifecycle_inv_shrink[OF inv])
  show "wf_store (snd (CompleteJob uuid s))"
    using lifecycle_invD(1)[OF inv] by (rule wf_store_CompleteJob)
  show "\<exists>n. queued_ids c (snd (CompleteJob uuid s)) key = drop n (queued_ids c s key)" for key
    by (intro exI[of _ 0]) (simp add: CompleteJob_queued_ids)
  show "status_of s u = Some x \<or> u \<in> claimed \<and> x = ''complete''"
    if "status_of (snd (CompleteJob uuid s)) u = Some x" for u x
    using that cl CompleteJob_status_same[of uuid s]
    by (cases "u = uuid") (auto simp: CompleteJob_status_other)
qed

lemma lifecycle_inv_elapse:
  assumes inv: "lifecycle_inv c s inserted claimed"
  shows "lifecycle_inv c (elapse d s) inserted claimed"
proof (rule lifecycle_inv_shrink[OF inv])
  show "wf_store (elapse d s)"
    using lifecycle_invD(1)[OF inv] by (rule wf_store_elapse)
  show "\<exists>n. queued_ids c (elapse d s) key = drop n (queued_ids c s key)" for key
    using queued_ids_elapse[of c d s key] by (intro drop_cases) auto
  show "status_of s u = Some x \<or> u \<in> claimed \<and> x = ''complete''"
    if "status_of (elapse d s) u = Some x" for u x
    using that status_of_elapse[of d s u] by auto
qed

lemma lifecycle_inv_exec:
  assumes "lifecycle_inv c s inserted claimed" and "allowed c op inserted claimed"
  shows "lifecycle_inv c (exec c op s) (inserted_after op inserted) (claimed_after c op s claimed)"
  using assms
  by (cases op)
     (simp_all add: exec_def allowed_def inserted_after_def claimed_after_def
                    lifecycle_inv_AddJob lifecycle_inv_ClaimJob lifecycle_inv_CompleteJob
                    lifecycle_inv_elapse)

section \<open>The status of a job along its life cycle\<close>

lemma ClaimJob_status_claimed:
  assumes inv: "lifecycle_inv c s inserted claimed" and u: "u \<in> claimed"
  shows "status_of (snd (ClaimJob c rules s)) u = status_of s u"
proof (cases "\<exists>job. fst (claim_pop c rules s) = Inr (Some job)")
  case False
  then have "ClaimJob c rules s = claim_pop c rules s"
    by (auto simp: ClaimJob_def split: prod.splits sum.splits option.splits)
  then show ?thesis by (simp add: claim_pop_status)
next
  case True
  then obtain job where pop: "fst (claim_pop c rules s) = Inr (Some job)" by blast
  then have cj: "ClaimJob c rules s = claim_mark job (snd (claim_pop c rules s))"
    by (simp add: ClaimJob_def split_beta)
  from claim_pop_queued_ids[OF pop]
  have "Some (UUID job) \<in> set (queued_ids c s (jobs_key (NormalizeQueryRules rules)))" by simp
  with lifecycle_invD(4)[OF inv] have "UUID job \<notin> claimed" by blast
  with u have "u \<noteq> UUID job" by auto
  then show ?thesis by (simp add: cj claim_mark_status_other claim_pop_status)
qed

lemma complete_stays:
  assumes inv: "lifecycle_inv c s inserted claimed" and ok: "allowed c op inserted claimed"
    and u: "u \<in> claimed" and st: "status_of s u = None \<or> status_of s u = Some ''complete''"
  shows "status_of (exec c op s) u = None \<or> status_of (exec c op s) u = Some ''complete''"
proof (cases op)
  case (Add job)
  with ok u lifecycle_invD(2)[OF inv] have "u \<noteq> UUID job" by (auto simp: allowed_def)
  with st Add show ?thesis by (simp add: exec_def AddJob_status_other)
next
  case (Claim rules)
  with st ClaimJob_status_claimed[OF inv u] show ?thesis by (simp add: exec_def)
next
  case (Complete uuid)
  with st CompleteJob_status_same[of uuid s] show ?thesis
    by (cases "u = uuid") (auto simp: exec_def CompleteJob_status_other)
next
  case (Wait d)
  with st status_of_elapse[of d s u] show ?thesis by (auto simp: exec_def)
qed

lemma claimed_after_mono: "claimed \<subseteq> claimed_after c op s claimed"
  by (cases op) (auto simp: claimed_after_def)

lemma seen_status: "x \<in> set (seen s u) \<longleftrightarrow> status_of s u = Some x"
  by (auto simp: seen_def split: option.splits)

lemma observed_later:
  assumes "lifecycle_inv c s inserted claimed" and "lifecycle c ops s inserted claimed"
    and "x \<in> set (observed c ops s u)"
  shows "(x = ''reserved'' \<or> x = ''claimed'' \<or> x = ''complete'') \<and>
         (u \<in> claimed \<longrightarrow> x \<noteq> ''reserved'') \<and>
         (u \<in> claimed \<and> (status_of s u = None \<or> status_of s u = Some ''complete'')
            \<longrightarrow> x = ''complete'')"
  using assms
proof (induction ops arbitrary: s inserted claimed)
  case Nil
  then have "status_of s u = Some x" by (simp add: seen_status)
  with lifecycle_invD(6)[OF Nil.prems(1), of u x] show ?case by (auto split: if_splits)
next
  case (Cons op ops)
  from Cons.prems(3) consider "status_of s u = Some x"
    | "x \<in> set (observed c ops (exec c op s) u)"
    by (auto simp: seen_status)
  then show ?case
  proof cases
    case 1
    with lifecycle_invD(6)[OF Cons.prems(1), of u x] show ?thesis by (auto split: if_splits)
  next
    case 2
    from Cons.prems(2) have ok: "allowed c op inserted claimed"
      and rest: "lifecycle c ops (exec c op s) (inserted_after op inserted)
                   (claimed_after c op s claimed)"
      by simp_all
    note inv' = lifecycle_inv_exec[OF Cons.prems(1) ok]
    note ih = Cons.IH[OF inv' rest 2]
    have mono: "u \<in> claimed \<Longrightarrow> u \<in> claimed_after c op s claimed"
      using claimed_after_mono[of claimed c op s] by auto
    have stay: "status_of (exec c op s) u = None \<or> status_of (exec c op s) u = Some ''complete''"
      if "u \<in> claimed" "status_of s u = None \<or> status_of s u = Some ''complete''"
      using complete_stays[OF Cons.prems(1) ok that] .
    from ih mono stay show ?thesis by blast
  qed
qed

lemma observed_sorted:
  assumes "lifecycle_inv c s inserted claimed" and "lifecycle c ops s inserted claimed"
  shows "never_regresses (observed c ops s u)"
  using assms
proof (induction ops arbitrary: s inserted claimed)
  case Nil
  then show ?case by (simp add: never_regresses_def seen_def split: option.splits)
next
  case (Cons op ops)
  from Cons.prems(2) have ok: "allowed c op inserted claimed"
    and rest: "lifecycle c ops (exec c op s) (inserted_after op inserted)
                 (claimed_after c op s claimed)"
    by simp_all
  note inv' = lifecycle_inv_exec[OF Cons.prems(1) ok]
  have tail: "never_regresses (observed c ops (exec c op s) u)"
    using Cons.IH[OF inv' rest] .
  have "status_rank x \<le> status_rank y"
    if x: "status_of s u = Some x" and y: "y \<in> set (observed c ops (exec c op s) u)" for x y
  proof -
    note later = observed_later[OF inv' rest y]
    from lifecycle_invD(6)[OF Cons.prems(1) x]
    consider "u \<notin> claimed" "x = ''reserved''" | "u \<in> claimed" "x = ''claimed''"
      | "u \<in> claimed" "x = ''complete''"
      by (auto split: if_splits)
    then show ?thesis
    proof cases
      case 1
      then show ?thesis by (simp add: status_rank_def)
    next
      case 2
      then have "u \<in> claimed_after c op s claimed"
        using claimed_after_mono[of claimed c op s] by auto
      with later 2 show ?thesis by (auto simp: status_rank_def)
    next
      case 3
      then have "u \<in> claimed_after c op s claimed"
        using claimed_after_mono[of claimed c op s] by auto
      moreover have "status_of (exec c op s) u = None \<or> status_of (exec c op s) u = Some ''complete''"
        using complete_stays[OF Cons.prems(1) ok 3(1)] x 3(2) by simp
      ultimately have "y = ''complete''" using later by blast
      with 3 show ?thesis by (simp add: status_rank_def)
    qed
  qed
  moreover have "sorted_wrt (\<lambda>a b. status_rank a \<le> status_rank b) (seen s u)"
    by (simp add: seen_def split: option.splits)
  ultimately show ?case
    using tail by (auto simp: never_regresses_def sorted_wrt_append seen_status)
qed

lemma lifecycle_inv_empty: "keys s = Map.empty \<Longrightarrow> lifecycle_inv c s {} {}"
  by (simp add: lifecycle_inv_def wf_store_def queued_ids_def status_of_def metadata_def)

text \<open>
  C5, as the code has it. Take any run of \<open>AddJob\<close>, \<open>ClaimJob\<close>, \<open>CompleteJob\<close> and
  time passing from a store with no key, whichever commands are lost on their way to
  it, in which no job id is inserted twice, every inserted job is read back by the
  codec as it was written, and a completion is reported only for an id that a claim
  has returned. Then the statuses seen for a job are among \<open>reserved\<close>, \<open>claimed\<close> and
  \<open>complete\<close>, and never go back.
\<close>

theorem status_never_regresses:
  assumes "keys s = Map.empty" and "lifecycle c ops s {} {}"
  shows "never_regresses (observed c ops s uuid) \<and>
         set (observed c ops s uuid) \<subseteq> {''reserved'', ''claimed'', ''complete''}"
proof -
  have inv: "lifecycle_inv c s {} {}" using assms(1) by (rule lifecycle_inv_empty)
  have "never_regresses (observed c ops s uuid)"
    using inv assms(2) by (rule observed_sorted)
  moreover have "set (observed c ops s uuid) \<subseteq> {''reserved'', ''claimed'', ''complete''}"
    using observed_later[OF inv assms(2)] by blast
  ultimately show ?thesis by simp
qed

lemmas run_defs =
  exec_def seen_def status_of_def metadata_def elapse_def allowed_def inserted_after_def
  claimed_after_def round_trip_def returned_id_def

theorem status_never_regresses_witness:
  "keys empty_store = Map.empty \<and>
   lifecycle example_codec example_run empty_store {} {} \<and>
   observed example_codec example_run empty_store ''j1''
     = [''reserved'', ''reserved'', ''claimed'', ''complete'', ''complete''] \<and>
   never_regresses (observed example_codec example_run empty_store ''j1'')"
proof -
  have k: "keys empty_store = Map.empty"
    by (simp add: empty_store_def)
  have l: "lifecycle example_codec example_run empty_store {} {}"
    unfolding example_run_def by (simp add: run_defs store_defs example_defs)
  have o: "observed example_codec example_run empty_store ''j1''
             = [''reserved'', ''reserved'', ''claimed'', ''complete'', ''complete'']"
    unfolding example_run_def by (simp add: run_defs store_defs example_defs)
  from status_never_regresses [OF k l, of "''j1''"] k l o show ?thesis by simp
qed

text \<open>
  C5 as stated fails. A job that is inserted again after it was claimed is \<open>reserved\<close>
  again, and a job whose completion is reported while it is still queued is \<open>claimed\<close>
  after it was \<open>complete\<close>: \<open>AddJob\<close> and \<open>ClaimJob\<close> write their status whatever the
  status was.
\<close>

theorem status_regresses_counterexample:
  "observed example_codec
     [Add (example_job ''j1'' [''queue=default'']), Claim [''queue=default''],
      Add (example_job ''j1'' [''queue=default''])] empty_store ''j1''
     = [''reserved'', ''claimed'', ''reserved''] \<and>
   \<not> never_regresses [''reserved'', ''claimed'', ''reserved''] \<and>
   observed example_codec
     [Add (example_job ''j1'' [''queue=default'']), Complete ''j1'',
      Claim [''queue=default'']] empty_store ''j1''
     = [''reserved'', ''complete'', ''claimed''] \<and>
   \<not> never_regresses [''reserved'', ''complete'', ''claimed'']"
  by (simp add: never_regresses_def status_rank_def run_defs store_defs example_defs)

text \<open>
  When the store stops being reachable between the two commands of a claim, the job
  has left the queue and no caller has it.
\<close>

lemma claim_lost_when_unreachable:
  "(let s = snd (AddJob example_codec (example_job ''j1'' [''queue=default'']) empty_store);
        r = ClaimJob example_codec [''queue=default''] (s\<lparr>outage := [False, True]\<rparr>)
    in fst r = Inl (UpdatingStatus Unreachable) \<and> queue_of (snd r) ''queue=default'' = [])"
  by (simp add: queue_of_def store_defs example_defs)

end
